theory Spec2Isabelle
  imports Complex_Main "HOL-Library.Word"
begin

section \<open>Data model of msdf-atlasgen (main.cpp)\<close>

text \<open>
  \<^verbatim>\<open>size_t\<close> is the 64-bit unsigned integer of the usual build targets: all of its
  arithmetic wraps modulo \<open>2 ^ 64\<close> and its order is the unsigned one.
\<close>

type_synonym size_t = "64 word"

datatype font_mode = msdf | sdf | pseudo_sdf

text \<open>
  \<^verbatim>\<open>struct settings\<close>. \<^verbatim>\<open>tex_dims\<close> is flattened into its two fields; the codepoint
  ranges are only read by \<^verbatim>\<open>read_shapes\<close>, whose result is a parameter below.
\<close>

record settings =
  tex_dims_width :: size_t
  tex_dims_height :: size_t
  use_spans :: bool
  max_char_height :: size_t
  auto_height :: bool
  spacing :: size_t
  smoothpixels :: size_t
  mode :: font_mode
  font_file_name :: string
  output_file_name :: string

text \<open>
  \<^verbatim>\<open>struct char_info\<close>, without the opaque shape, translation and bitmap. A finite
  \<^verbatim>\<open>double\<close> is a rational number; the functions below only copy and compare these
  fields, which is exact, so they are carried as reals. \<^verbatim>\<open>codepoint\<close> is a C \<^verbatim>\<open>int\<close>.
\<close>

record char_info =
  codepoint :: int
  bbox_x :: real
  bbox_y :: real
  bbox_width :: real
  bbox_height :: real
  placement_x :: nat
  placement_y :: nat
  placement_width :: nat
  placement_height :: nat
  advance :: real

text \<open>
  What a run does that can be observed: the lines it prints, the division by which
  \<^verbatim>\<open>build_charset\<close> computes \<^verbatim>\<open>scaling\<close> (numerator and divisor as executed), and the
  files it writes.
\<close>

datatype event =
    Print_trying size_t
  | Print_packing_atlas
  | Print_using_char_height size_t
  | Print_building_chars
  | Print_packing_failed
  | Print_could_not_open_font string
  | Print_parse_error
  | Print_usage
  | Scaling_division size_t real
  | Open_description_file
  | Write_description_file
  | Write_image_png
  | Write_image_c

text \<open>
  A call either returns, or reaches undefined behaviour of C++ (here: dereferencing the
  end iterator that \<^verbatim>\<open>max_element\<close> returns for an empty vector).
\<close>

datatype 'a outcome = Returns 'a | Undefined_behaviour

section \<open>build_charset: the divisor of the scale factor\<close>

text \<open>
  \<^verbatim>\<open>double maxheight = 0; for (auto& ch : charinfos) maxheight = std::max(ch.bbox.height(), maxheight);\<close>
  followed, with no test in between, by \<^verbatim>\<open>scaling = double(cfg.max_char_height) / maxheight\<close>.
  \<^verbatim>\<open>std::max(a, b)\<close> is \<^verbatim>\<open>(a < b) ? b : a\<close>.
\<close>

definition std_max :: "real \<Rightarrow> real \<Rightarrow> real" where
  "std_max a b = (if a < b then b else a)"

definition maxheight_of :: "char_info list \<Rightarrow> real" where
  "maxheight_of charinfos = foldl (\<lambda>maxheight ch. std_max (bbox_height ch) maxheight) 0 charinfos"

definition build_charset_log :: "char_info list \<Rightarrow> settings \<Rightarrow> event list" where
  "build_charset_log shapes cfg = [Scaling_division (max_char_height cfg) (maxheight_of shapes)]"

section \<open>run: the automatic search for the char height\<close>

text \<open>
  The loop variables of \<^verbatim>\<open>run\<close>: \<^verbatim>\<open>std::pair<size_t, size_t> range\<close> and \<^verbatim>\<open>size_t highest\<close>.
\<close>

record search_state =
  range_first :: size_t
  range_second :: size_t
  highest :: size_t

text \<open>
  The branch taken when \<^verbatim>\<open>build_atlas\<close> returns true:
  \<^verbatim>\<open>range.first = range.second; range.second = min(range.first * 2, highest - 1);\<close>
\<close>

definition pack_succeeded :: "search_state \<Rightarrow> search_state" where
  "pack_succeeded s =
     (let s1 = s\<lparr>range_first := range_second s\<rparr>
      in s1\<lparr>range_second := min (range_first s1 * 2) (highest s1 - 1)\<rparr>)"

text \<open>
  The branch taken when it returns false:
  \<^verbatim>\<open>highest = min(highest, range.second); range.second = range.first + (range.second - range.first) / 2;\<close>
\<close>

definition pack_failed :: "search_state \<Rightarrow> search_state" where
  "pack_failed s =
     (let s1 = s\<lparr>highest := min (highest s) (range_second s)\<rparr>
      in s1\<lparr>range_second := range_first s1 + (range_second s1 - range_first s1) div 2\<rparr>)"

definition auto_height_step :: "bool \<Rightarrow> search_state \<Rightarrow> search_state" where
  "auto_height_step ok s = (if ok then pack_succeeded s else pack_failed s)"

definition initial_search :: "settings \<Rightarrow> search_state" where
  "initial_search cfg =
     \<lparr>range_first = 0, range_second = max_char_height cfg, highest = tex_dims_height cfg + 1\<rparr>"

text \<open>
  The \<^verbatim>\<open>while (range.first != range.second)\<close> loop. The parameter \<open>build_and_pack\<close> stands
  for \<^verbatim>\<open>build_charset\<close> followed by \<^verbatim>\<open>build_atlas\<close> (FreeType, msdfgen and the bin packer
  of binpacking.h are outside the sources): from the state \<open>w\<close> of the outside world, the
  settings as they are at the call and the \<^verbatim>\<open>build_images\<close> flag it gives the answer of
  \<^verbatim>\<open>build_atlas\<close>, the records as scaled and placed, and the new state of the world.
  \<open>shapes\<close> is what \<^verbatim>\<open>read_shapes\<close> returns. The loop may run forever: then the value
  is \<open>None\<close>.
\<close>

type_synonym 'w packer = "'w \<Rightarrow> settings \<Rightarrow> bool \<Rightarrow> (bool \<times> char_info list) \<times> 'w"

partial_function (option) auto_height_loop ::
  "'w packer \<Rightarrow> char_info list \<Rightarrow> 'w \<Rightarrow> settings \<Rightarrow> search_state \<Rightarrow> event list
     \<Rightarrow> (settings \<times> search_state \<times> 'w \<times> event list) option" where
  "auto_height_loop build_and_pack shapes w cfg s evs =
     (if range_first s = range_second s then Some (cfg, s, w, evs)
      else (let cfg1 = cfg\<lparr>max_char_height := range_second s\<rparr>;
                r = build_and_pack w cfg1 False
            in auto_height_loop build_and_pack shapes (snd r) cfg1
                 (auto_height_step (fst (fst r)) s)
                 (evs @ Print_trying (range_second s) # build_charset_log shapes cfg1
                    @ [Print_packing_atlas])))"

text \<open>
  The first part of \<^verbatim>\<open>run\<close>: \<^verbatim>\<open>if (cfg.auto_height) { ... cfg.max_char_height = range.first; }\<close>
\<close>

definition auto_height_phase ::
  "'w packer \<Rightarrow> char_info list \<Rightarrow> 'w \<Rightarrow> settings \<Rightarrow> (settings \<times> 'w \<times> event list) option" where
  "auto_height_phase build_and_pack shapes w cfg =
     (if auto_height cfg then
        (case auto_height_loop build_and_pack shapes w cfg (initial_search cfg) [] of
           None \<Rightarrow> None
         | Some (cfg1, s, w1, evs) \<Rightarrow> Some (cfg1\<lparr>max_char_height := range_first s\<rparr>, w1, evs))
      else Some (cfg, w, []))"

section \<open>write_description\<close>

text \<open>
  \<^verbatim>\<open>size_t last_written\<close> is compared with and assigned from the \<^verbatim>\<open>int\<close> codepoint: the
  usual arithmetic conversions turn the \<^verbatim>\<open>int\<close> into a \<^verbatim>\<open>size_t\<close> (modulo \<open>2 ^ 64\<close>), and
  into an \<^verbatim>\<open>unsigned int\<close> (modulo \<open>2 ^ 32\<close>) where it is added to \<^verbatim>\<open>span_size\<close>. Values of
  these unsigned types are carried as naturals, with the reductions written out.
\<close>

definition size_t_of_int :: "int \<Rightarrow> nat" where
  "size_t_of_int i = nat (i mod 2 ^ 64)"

definition unsigned_of_int :: "int \<Rightarrow> nat" where
  "unsigned_of_int i = nat (i mod 2 ^ 32)"

text \<open>
  One line of \<^verbatim>\<open>font_codepoint_infos[]\<close>: the all-zero line written for a codepoint that
  has no record, or the line written from a record.
\<close>

datatype entry = Placeholder | Glyph_entry char_info

text \<open>
  \<^verbatim>\<open>while (last_written < info.codepoint) { desc << "{ 0, 0, 0, 0, 0, 0, 0, 0, 0 },\n"; ++last_written; }\<close>
  The counter stays below the converted codepoint, so the increment never wraps.
\<close>

function fill_gap :: "nat \<Rightarrow> nat \<Rightarrow> entry list" where
  "fill_gap last_written cp =
     (if last_written < cp then Placeholder # fill_gap (Suc last_written) cp else [])"
  by pat_completeness auto
termination
  by (relation "measure (\<lambda>(last_written, cp). cp - last_written)") auto

declare fill_gap.simps [simp del]

text \<open>
  \<^verbatim>\<open>for (const auto& info : charinfos) { if (!cfg.use_spans) { while ... } desc << "{ " ... "},\n"; last_written = info.codepoint + 1; }\<close>
  The result is the lines written and the final \<^verbatim>\<open>last_written\<close>.
\<close>

fun write_glyphs :: "bool \<Rightarrow> nat \<Rightarrow> char_info list \<Rightarrow> entry list \<times> nat" where
  "write_glyphs spans last_written [] = ([], last_written)"
| "write_glyphs spans last_written (info # rest) =
     (let gap = (if \<not> spans then fill_gap last_written (size_t_of_int (codepoint info)) else []);
          r = write_glyphs spans (size_t_of_int (codepoint info + 1)) rest
      in (gap @ Glyph_entry info # fst r, snd r))"

text \<open>One line of \<^verbatim>\<open>font_codepoint_spans[]\<close>, as printed: \<^verbatim>\<open>{ start, end, cumulative }\<close>.\<close>

record bitmap_span =
  bs_start :: int
  bs_end :: nat
  bs_cumulative :: nat

text \<open>
  \<^verbatim>\<open>for (; span_end < charinfos.size() && charinfos[span_end].codepoint == charinfos[span_end - 1].codepoint + 1; ++span_end);\<close>
  The index counters \<^verbatim>\<open>span_begin\<close> and \<^verbatim>\<open>span_end\<close> are bounded by the size of the vector;
  they are naturals here, which is what the \<^verbatim>\<open>unsigned int\<close> counters hold for a vector
  of fewer than \<open>2 ^ 32\<close> records.
\<close>

function span_end_from :: "char_info list \<Rightarrow> nat \<Rightarrow> nat" where
  "span_end_from charinfos span_end =
     (if span_end < length charinfos
         \<and> codepoint (charinfos ! span_end) = codepoint (charinfos ! (span_end - 1)) + 1
      then span_end_from charinfos (Suc span_end) else span_end)"
  by pat_completeness auto
termination
  by (relation "measure (\<lambda>(charinfos, span_end). length charinfos - span_end)") auto

declare span_end_from.simps [simp del]

lemma span_end_from_ge: "span_end \<le> span_end_from charinfos span_end"
proof (induction charinfos span_end rule: span_end_from.induct)
  case (1 charinfos span_end)
  then show ?case by (subst span_end_from.simps) (auto simp: Suc_leD)
qed

lemma span_end_from_le:
  "span_end \<le> length charinfos \<Longrightarrow> span_end_from charinfos span_end \<le> length charinfos"
proof (induction charinfos span_end rule: span_end_from.induct)
  case (1 charinfos span_end)
  then show ?case by (subst span_end_from.simps) auto
qed

text \<open>
  \<^verbatim>\<open>for (unsigned int span_begin = 0; span_begin < charinfos.size(); ) { ... cumulative += span_size; span_begin = span_end; }\<close>
\<close>

function write_spans :: "char_info list \<Rightarrow> nat \<Rightarrow> nat \<Rightarrow> bitmap_span list" where
  "write_spans charinfos span_begin cumulative =
     (if span_begin < length charinfos then
        (let span_end = span_end_from charinfos (span_begin + 1);
             span_size = span_end - span_begin
         in \<lparr>bs_start = codepoint (charinfos ! span_begin),
             bs_end = (unsigned_of_int (codepoint (charinfos ! span_begin)) + span_size) mod 2 ^ 32,
             bs_cumulative = cumulative\<rparr>
            # write_spans charinfos span_end ((cumulative + span_size) mod 2 ^ 32))
      else [])"
  by pat_completeness auto
termination
proof (relation "measure (\<lambda>(charinfos, span_begin, cumulative). length charinfos - span_begin)")
  show "wf (measure (\<lambda>(charinfos, span_begin, cumulative). length charinfos - span_begin))"
    by simp
next
  fix charinfos :: "char_info list" and span_begin cumulative x xa :: nat
  assume "span_begin < length charinfos" and "x = span_end_from charinfos (span_begin + 1)"
  then show "((charinfos, x, (cumulative + xa) mod 2 ^ 32), charinfos, span_begin, cumulative)
        \<in> measure (\<lambda>(charinfos, span_begin, cumulative). length charinfos - span_begin)"
    using span_end_from_ge [of "span_begin + 1" charinfos] by simp
qed

declare write_spans.simps [simp del]

text \<open>
  What \<^verbatim>\<open>write_description\<close> puts into the file: the span table (only with
  \<^verbatim>\<open>use_spans\<close>), the glyph table and \<^verbatim>\<open>bitmap_chars_count\<close>, printed as \<^verbatim>\<open>last_written + 1\<close>.
  \<^verbatim>\<open>std::sort\<close> orders the records by codepoint; records of equal codepoint come from the
  same glyph of the font, so their relative order cannot be seen. With no record
  at all, \<^verbatim>\<open>min_y->bbox.y()\<close> dereferences the end iterator. The two numbers of
  \<^verbatim>\<open>font_information\<close> are read through accessors of binpacking.h and are left out.
\<close>

record description =
  font_codepoint_spans :: "bitmap_span list option"
  font_codepoint_infos :: "entry list"
  bitmap_chars_count :: nat

definition write_description :: "char_info list \<Rightarrow> settings \<Rightarrow> description outcome" where
  "write_description charinfos cfg =
     (let ordered = sort_key codepoint charinfos
      in if ordered = [] then Undefined_behaviour
         else (let spans = (if use_spans cfg then Some (write_spans ordered 0 0) else None);
                   r = write_glyphs (use_spans cfg) 0 ordered
               in Returns \<lparr>font_codepoint_spans = spans, font_codepoint_infos = fst r,
                           bitmap_chars_count = (snd r + 1) mod 2 ^ 64\<rparr>))"

section \<open>write_image: the bytes of the pixel array\<close>

text \<open>
  Modelled from the spec: the two-argument \<^verbatim>\<open>clamp\<close> of msdfgen is not in the sources;
  the spec says that the value is clamped to [0,255], so \<open>clamp n b\<close> is \<open>n\<close> brought
  into the interval from \<open>0\<close> to \<open>b\<close>.
\<close>

definition clamp :: "int \<Rightarrow> int \<Rightarrow> int" where
  "clamp n b = (if n < 0 then 0 else if b < n then b else n)"

text \<open>
  \<^verbatim>\<open>int(x)\<close> of a \<^verbatim>\<open>float\<close>: the fractional part is discarded (truncation towards zero).
\<close>

definition int_of_float :: "real \<Rightarrow> int" where
  "int_of_float x = (if 0 \<le> x then \<lfloor>x\<rfloor> else \<lceil>x\<rceil>)"

text \<open>
  \<^verbatim>\<open>clamp(int(v * 0x100), 0xff)\<close>. The channel value \<open>v\<close> is a \<^verbatim>\<open>float\<close>; multiplying a
  binary floating-point number by \<open>256\<close> only changes its exponent, so \<open>v * 256\<close> is exact
  and \<open>v\<close> is carried as the real number it denotes.
\<close>

definition channel_byte :: "real \<Rightarrow> int" where
  "channel_byte v = clamp (int_of_float (v * 256)) 255"

text \<open>
  The two pixel loops of \<^verbatim>\<open>write_image\<close>, one line of numbers per row \<open>y\<close>. The composed
  atlas bitmap (filled by \<^verbatim>\<open>place\<close>, outside the sources) is a parameter, in the layout
  of the mode: \<open>msdf_atlas x y\<close> is the pixel \<^verbatim>\<open>(r, g, b)\<close>, \<open>sdf_atlas x y\<close> the single value.
\<close>

definition write_image_pixels ::
  "settings \<Rightarrow> (nat \<Rightarrow> nat \<Rightarrow> real \<times> real \<times> real) \<Rightarrow> (nat \<Rightarrow> nat \<Rightarrow> real) \<Rightarrow> int list list" where
  "write_image_pixels cfg msdf_atlas sdf_atlas =
     (let width = unat (tex_dims_width cfg); height = unat (tex_dims_height cfg)
      in case mode cfg of
           msdf \<Rightarrow>
             map (\<lambda>y. concat (map (\<lambda>x. case msdf_atlas x y of
                    (r, g, b) \<Rightarrow> [channel_byte r, channel_byte g, channel_byte b]) [0..<width]))
               [0..<height]
         | sdf \<Rightarrow> map (\<lambda>y. map (\<lambda>x. channel_byte (sdf_atlas x y)) [0..<width]) [0..<height]
         | pseudo_sdf \<Rightarrow> map (\<lambda>y. map (\<lambda>x. channel_byte (sdf_atlas x y)) [0..<width]) [0..<height])"

section \<open>run and main\<close>

text \<open>
  The second part of \<^verbatim>\<open>run\<close>, from \<^verbatim>\<open>"using char height"\<close> on. \<^verbatim>\<open>write_description\<close> opens
  its file before anything else; \<^verbatim>\<open>write_image\<close> writes the PNG and then the C file.
\<close>

definition run_final ::
  "'w packer \<Rightarrow> char_info list \<Rightarrow> 'w \<Rightarrow> settings \<Rightarrow> event list \<Rightarrow> unit outcome \<times> event list" where
  "run_final build_and_pack shapes w cfg evs =
     (let evs1 = evs @ [Print_using_char_height (max_char_height cfg), Print_building_chars]
                   @ build_charset_log shapes cfg @ [Print_packing_atlas];
          r = build_and_pack w cfg True
      in if \<not> fst (fst r) then (Returns (), evs1 @ [Print_packing_failed])
         else (case write_description (snd (fst r)) cfg of
                 Undefined_behaviour \<Rightarrow> (Undefined_behaviour, evs1 @ [Open_description_file])
               | Returns d \<Rightarrow>
                   (Returns (), evs1 @ [Open_description_file, Write_description_file,
                                        Write_image_png, Write_image_c])))"

definition run ::
  "'w packer \<Rightarrow> char_info list \<Rightarrow> 'w \<Rightarrow> settings \<Rightarrow> (unit outcome \<times> event list) option" where
  "run build_and_pack shapes w cfg =
     (case auto_height_phase build_and_pack shapes w cfg of
        None \<Rightarrow> None
      | Some (cfg1, w1, evs) \<Rightarrow> Some (run_final build_and_pack shapes w1 cfg1 evs))"

text \<open>
  \<^verbatim>\<open>main\<close>. What \<^verbatim>\<open>parse_options\<close> does (it returns false after printing the usage, throws
  \<^verbatim>\<open>po::error\<close>, or fills the settings) and whether \<^verbatim>\<open>initializeFreetype\<close> and \<^verbatim>\<open>loadFont\<close>
  return a handle are parameters. The result is the exit status and what was printed
  and written.
\<close>

datatype parse_result = Usage_requested | Parse_failed | Parsed settings

definition main ::
  "parse_result \<Rightarrow> bool \<Rightarrow> bool \<Rightarrow> 'w packer \<Rightarrow> char_info list \<Rightarrow> 'w
     \<Rightarrow> (int outcome \<times> event list) option" where
  "main parsed ft font build_and_pack shapes w =
     (case parsed of
        Usage_requested \<Rightarrow> Some (Returns 0, [Print_usage])
      | Parse_failed \<Rightarrow> Some (Returns 0, [Print_parse_error])
      | Parsed cfg \<Rightarrow>
          if ft then
            (if font then
               (case run build_and_pack shapes w cfg of
                  None \<Rightarrow> None
                | Some (Undefined_behaviour, evs) \<Rightarrow> Some (Undefined_behaviour, evs)
                | Some (Returns u, evs) \<Rightarrow> Some (Returns 0, evs))
             else Some (Returns 0, [Print_could_not_open_font (font_file_name cfg)]))
          else Some (Returns 0, []))"

section \<open>The search: invariant, reachable states and the stated step relation\<close>

text \<open>
  The states in which the search behaves as a bisection, for texture height \<open>T\<close> and
  requested height \<open>H\<close>: the lower end is at most the candidate and below \<open>highest\<close>, which
  is at most \<open>T + 1\<close>; and either the candidate is below \<open>highest\<close>, or no probe has yet
  been made at or below the texture height (\<open>highest\<close> is still \<open>T + 1\<close>, the candidate is
  at most \<open>H\<close>).
\<close>

definition search_inv :: "size_t \<Rightarrow> size_t \<Rightarrow> search_state \<Rightarrow> bool" where
  "search_inv T H s =
     (range_first s \<le> range_second s \<and> range_first s < highest s \<and> highest s \<le> T + 1
      \<and> (range_second s < highest s \<or> (highest s = T + 1 \<and> range_second s \<le> H)))"

text \<open>
  The order in which every iteration descends under that invariant: the distance from
  the lower end to \<open>highest\<close> first, the width of the range second.
\<close>

definition search_measure :: "(search_state \<times> search_state) set" where
  "search_measure = measures [\<lambda>s. unat (highest s) - unat (range_first s),
                              \<lambda>s. unat (range_second s) - unat (range_first s)]"

text \<open>
  The states the loop can be in when the packer can succeed only at the heights in
  \<open>may_pack\<close> (every height, for \<open>\<lambda>h. True\<close>): the initial one, and the state after one more
  iteration of a state in which the loop condition holds.
\<close>

inductive reachable :: "(size_t \<Rightarrow> bool) \<Rightarrow> settings \<Rightarrow> search_state \<Rightarrow> bool"
  for may_pack :: "size_t \<Rightarrow> bool" and cfg :: settings where
  start: "reachable may_pack cfg (initial_search cfg)"
| probe: "reachable may_pack cfg s \<Longrightarrow> range_first s \<noteq> range_second s
     \<Longrightarrow> (ok \<longrightarrow> may_pack (range_second s))
     \<Longrightarrow> reachable may_pack cfg (auto_height_step ok s)"

text \<open>
  The step relation in the words of the specification, on \<open>(low, high, bestKnownInfeasibleUpperBound)\<close>:
  on success at \<open>high\<close>, set \<open>low = high\<close>, then grow \<open>high = min(low*2, bound - 1)\<close>; on failure
  at \<open>high\<close>, tighten \<open>bound = min(bound, high)\<close>, then bisect \<open>high = low + (high-low)/2\<close>. The
  heights of the specification are natural numbers, not machine words: nothing wraps. (A
  difference of natural numbers is 0 where it would be negative; on the states met in the
  claims below \<open>bound\<close> is at least 1 and \<open>high\<close> at least \<open>low\<close>.)
\<close>

inductive spec_step :: "bool \<Rightarrow> nat \<times> nat \<times> nat \<Rightarrow> nat \<times> nat \<times> nat \<Rightarrow> bool" where
  on_success: "spec_step True (low, high, bound) (high, min (high * 2) (bound - 1), bound)"
| on_failure: "spec_step False (low, high, bound) (low, low + (high - low) div 2, min bound high)"

text \<open>
  The search of the specification: if \<open>low = high\<close> it terminates with result \<open>low\<close>;
  otherwise it probes \<open>high\<close> and goes on from the state the step relation gives. \<open>probe\<close>
  answers whether the records scaled to a height pack, and passes the world on.
\<close>

inductive spec_auto_sizer ::
  "('w \<Rightarrow> nat \<Rightarrow> bool \<times> 'w) \<Rightarrow> 'w \<Rightarrow> nat \<times> nat \<times> nat \<Rightarrow> nat \<Rightarrow> bool"
  for probe :: "'w \<Rightarrow> nat \<Rightarrow> bool \<times> 'w" where
  terminated: "low = high \<Longrightarrow> spec_auto_sizer probe w (low, high, bound) low"
| probed: "low \<noteq> high \<Longrightarrow> probe w high = (ok, w') \<Longrightarrow> spec_step ok (low, high, bound) t
     \<Longrightarrow> spec_auto_sizer probe w' t r \<Longrightarrow> spec_auto_sizer probe w (low, high, bound) r"

text \<open>
  The initial state of the specification: \<open>low = 0\<close>, \<open>high = requestedMaxHeight\<close>,
  \<open>bestKnownInfeasibleUpperBound = texHeight + 1\<close>, the sum being that of numbers.
\<close>

definition spec_initial :: "settings \<Rightarrow> nat \<times> nat \<times> nat" where
  "spec_initial cfg = (0, unat (max_char_height cfg), unat (tex_dims_height cfg) + 1)"

text \<open>
  The probe at a height that \<^verbatim>\<open>run\<close> makes: \<^verbatim>\<open>cfg.max_char_height = range.second\<close>, then
  \<^verbatim>\<open>build_charset(font, cfg, scaling, false)\<close> and \<^verbatim>\<open>build_atlas\<close>.
\<close>

definition probe_of :: "'w packer \<Rightarrow> settings \<Rightarrow> 'w \<Rightarrow> nat \<Rightarrow> bool \<times> 'w" where
  "probe_of build_and_pack cfg w h =
     (let r = build_and_pack w (cfg\<lparr>max_char_height := of_nat h\<rparr>) False in (fst (fst r), snd r))"

text \<open>
  The loop variables of \<^verbatim>\<open>run\<close> read as numbers.
\<close>

definition triple_of :: "search_state \<Rightarrow> nat \<times> nat \<times> nat" where
  "triple_of s = (unat (range_first s), unat (range_second s), unat (highest s))"

section \<open>What the span table promises\<close>

text \<open>
  The spans partition the glyph table from \<open>off\<close> to \<open>n\<close>: the first one starts at offset
  \<open>off\<close>, every one covers \<open>end - start\<close> lines, at least one, the next one starts where the
  one before stops, and the last one stops at \<open>n\<close>.
\<close>

fun spans_partition :: "nat \<Rightarrow> nat \<Rightarrow> bitmap_span list \<Rightarrow> bool" where
  "spans_partition off n [] = (off = n)"
| "spans_partition off n (sp # sps) =
     (bs_cumulative sp = off \<and> nat (bs_start sp) < bs_end sp
      \<and> spans_partition (off + (bs_end sp - nat (bs_start sp))) n sps)"

text \<open>
  The runs are maximal: between the end of one span and the start of the next at least
  one codepoint is missing.
\<close>

fun runs_maximal :: "bitmap_span list \<Rightarrow> bool" where
  "runs_maximal (a # b # sps) = (int (bs_end a) < bs_start b \<and> runs_maximal (b # sps))"
| "runs_maximal sps = True"

section \<open>Concrete inputs\<close>

text \<open>
  Two packers: one fits every height but zero, one fits every height up to a limit.
  Neither returns records, and neither touches the world.
\<close>

definition never_at_zero :: "unit packer" where
  "never_at_zero w cfg build_images = ((max_char_height cfg \<noteq> 0, []), w)"

definition fits_up_to :: "size_t \<Rightarrow> unit packer" where
  "fits_up_to limit w cfg build_images = ((max_char_height cfg \<le> limit, []), w)"

text \<open>
  A packer that answers from the settings it is given, as \<^verbatim>\<open>build_atlas\<close> reads
  \<^verbatim>\<open>cfg.tex_dims\<close>: it fits every height up to the height of the texture. And one that fits
  every height up to a limit and returns the records it is given.
\<close>

definition fits_texture :: "unit packer" where
  "fits_texture w cfg build_images = ((max_char_height cfg \<le> tex_dims_height cfg, []), w)"

definition packs_up_to :: "size_t \<Rightarrow> char_info list \<Rightarrow> unit packer" where
  "packs_up_to limit records w cfg build_images = ((max_char_height cfg \<le> limit, records), w)"

text \<open>
  The default settings of \<^verbatim>\<open>parse_options\<close>, with the texture height, the char height and the
  two flags as given.
\<close>

definition demo_settings :: "size_t \<Rightarrow> size_t \<Rightarrow> bool \<Rightarrow> bool \<Rightarrow> settings" where
  "demo_settings tex_height char_height auto spans =
     \<lparr>tex_dims_width = 2048, tex_dims_height = tex_height, use_spans = spans,
      max_char_height = char_height, auto_height = auto, spacing = 2, smoothpixels = 2,
      mode = msdf, font_file_name = ''UbuntuMono-R.ttf'', output_file_name = ''bitmap_font''\<rparr>"

text \<open>
  Three states through which the search started by \<open>demo_settings 0 1\<close> cycles under
  \<open>never_at_zero\<close>, and the two states that lead to them.
\<close>

definition cycle_a :: search_state where
  "cycle_a = \<lparr>range_first = 2 ^ 63, range_second = 0, highest = 0\<rparr>"

definition cycle_b :: search_state where
  "cycle_b = \<lparr>range_first = 2 ^ 63, range_second = 2 ^ 63 + 2 ^ 62, highest = 0\<rparr>"

definition cycle_c :: search_state where
  "cycle_c = \<lparr>range_first = 2 ^ 63 + 2 ^ 62, range_second = 2 ^ 63, highest = 0\<rparr>"

definition lead_in_1 :: search_state where
  "lead_in_1 = \<lparr>range_first = 1, range_second = 0, highest = 1\<rparr>"

definition lead_in_2 :: search_state where
  "lead_in_2 = \<lparr>range_first = 1, range_second = 2 ^ 63, highest = 0\<rparr>"


text \<open>
  A record as \<^verbatim>\<open>build_charset\<close> leaves it, and a packer that places the records it is given
  and reports success.
\<close>

definition demo_glyph :: "int \<Rightarrow> char_info" where
  "demo_glyph cp = \<lparr>codepoint = cp, bbox_x = 1, bbox_y = -2, bbox_width = 14, bbox_height = 20,
     placement_x = 0, placement_y = 0, placement_width = 18, placement_height = 24, advance = 16\<rparr>"

definition packs_glyphs :: "char_info list \<Rightarrow> unit packer" where
  "packs_glyphs records w cfg build_images = ((True, records), w)"

text \<open>
  The quantization in the words of the specification: \<open>round(value*256)\<close> clamped to [0,255].
\<close>

definition spec_channel_byte :: "real \<Rightarrow> int" where
  "spec_channel_byte v = clamp (round (v * 256)) 255"

section \<open>Word arithmetic of one iteration\<close>

lemma small_no_wrap:
  fixes T :: size_t
  assumes "T < 2 ^ 63"
  shows "unat (T + 1) = unat T + 1"
  using assms by (simp add: unat_word_ariths word_less_nat_alt)

lemma pack_succeeded_fields:
  "range_first (pack_succeeded s) = range_second s"
  "range_second (pack_succeeded s) = min (range_second s * 2) (highest s - 1)"
  "highest (pack_succeeded s) = highest s"
  by (simp_all add: pack_succeeded_def Let_def)

lemma pack_failed_fields:
  "range_first (pack_failed s) = range_first s"
  "range_second (pack_failed s) = range_first s + (range_second s - range_first s) div 2"
  "highest (pack_failed s) = min (highest s) (range_second s)"
  by (simp_all add: pack_failed_def Let_def)

lemma double_no_wrap:
  fixes a T :: size_t
  assumes "T < 2 ^ 63" "a \<le> T"
  shows "unat (a * 2) = 2 * unat a"
proof -
  have "unat a < 2 ^ 63" using assms by (simp add: word_less_nat_alt word_le_nat_alt)
  then show ?thesis by (simp add: unat_word_ariths)
qed

lemma midpoint_unat:
  fixes a b :: size_t
  assumes "a \<le> b"
  shows "unat (a + (b - a) div 2) = unat a + (unat b - unat a) div 2"
proof -
  have le: "unat a \<le> unat b" using assms by (simp add: word_le_nat_alt)
  have "unat ((b - a) div 2) = (unat b - unat a) div 2"
    using assms by (simp add: unat_div unat_sub)
  moreover have "unat a + (unat b - unat a) div 2 \<le> unat b" using le by simp
  moreover have "unat b < 2 ^ 64" using unsigned_less [of b] by simp
  ultimately show ?thesis by (simp add: unat_word_ariths)
qed

lemma pred_unat:
  fixes a h :: size_t
  assumes "a < h"
  shows "unat (h - 1) = unat h - 1"
proof -
  have "unat h \<noteq> 0" using assms by (simp add: word_less_nat_alt)
  then have "h \<noteq> 0" by auto
  then show ?thesis by (rule unat_minus_one)
qed

lemma search_inv_step:
  assumes T: "T < 2 ^ 63" and inv: "search_inv T H s" and ne: "range_first s \<noteq> range_second s"
    and ok: "H \<le> T \<or> (ok \<longrightarrow> range_second s \<le> T)"
  shows "search_inv T H (auto_height_step ok s)"
    and "(auto_height_step ok s, s) \<in> search_measure"
    and "range_second s \<le> max H T"
    and "ok \<longrightarrow> range_first s < range_first (auto_height_step ok s) \<and> range_first (auto_height_step ok s) \<le> T"
    and "\<not> ok \<longrightarrow> range_second (auto_height_step ok s) - range_first (auto_height_step ok s)
            < range_second s - range_first s"
proof -
  let ?l = "unat (range_first s)" and ?h = "unat (range_second s)" and ?b = "unat (highest s)"
  have le: "range_first s \<le> range_second s" using inv by (simp add: search_inv_def)
  have lh: "?l < ?h" using le ne by (simp add: word_le_nat_alt word_unat_eq_iff)
  have lb: "?l < ?b" using inv by (simp add: search_inv_def word_less_nat_alt)
  have T1: "unat (T + 1) = unat T + 1" by (rule small_no_wrap [OF T])
  have bT: "?b \<le> unat T + 1" using inv T1 by (simp add: search_inv_def word_le_nat_alt)
  have ph: "?h < ?b \<or> (?b = unat T + 1 \<and> ?h \<le> unat H)"
    using inv T1 by (auto simp: search_inv_def word_le_nat_alt word_less_nat_alt)
  have okT: "ok \<Longrightarrow> ?h \<le> unat T"
    using ok ph bT by (auto simp: word_le_nat_alt)
  have mid: "unat (range_first s + (range_second s - range_first s) div 2) = ?l + (?h - ?l) div 2"
    by (rule midpoint_unat [OF le])
  have prd: "unat (highest s - 1) = ?b - 1"
    using pred_unat [of "range_first s" "highest s"] inv by (simp add: search_inv_def)
  show m: "range_second s \<le> max H T"
    using ph bT by (auto simp: word_le_nat_alt max_def)
  show "search_inv T H (auto_height_step ok s)"
  proof (cases ok)
    case True
    have hT: "range_second s \<le> T" using okT [OF True] by (simp add: word_le_nat_alt)
    have dbl: "unat (range_second s * 2) = 2 * ?h" by (rule double_no_wrap [OF T hT])
    have hb: "?h < ?b" using ph okT [OF True] by auto
    have sec: "unat (range_second (pack_succeeded s)) = min (2 * ?h) (?b - 1)"
      by (simp add: pack_succeeded_fields min_def word_le_nat_alt dbl prd)
    show ?thesis using True hb bT sec inv
      by (simp add: auto_height_step_def search_inv_def word_le_nat_alt word_less_nat_alt pack_succeeded_fields) arith
  next
    case False
    have hi: "unat (highest (pack_failed s)) = min ?b ?h"
      by (simp add: pack_failed_fields min_def word_le_nat_alt)
    have "unat (highest (pack_failed s)) \<le> unat T + 1" using hi bT by simp
    moreover have "?l < unat (highest (pack_failed s))" using hi lb lh by simp
    moreover have "?l + (?h - ?l) div 2 < min ?b ?h \<or> (min ?b ?h = unat T + 1 \<and> ?l + (?h - ?l) div 2 \<le> unat H)"
      using ph lh by auto
    ultimately show ?thesis using False hi mid T1 le
      by (simp add: auto_height_step_def search_inv_def word_le_nat_alt word_less_nat_alt
          word_unat_eq_iff [of "highest (pack_failed s)"] pack_failed_fields(1,2))
  qed
  show "(auto_height_step ok s, s) \<in> search_measure"
  proof (cases ok)
    case True
    have hb: "?h < ?b" using ph okT [OF True] by auto
    have "?b - ?h < ?b - ?l" using lh hb by arith
    then show ?thesis using True
      by (simp add: search_measure_def auto_height_step_def pack_succeeded_fields)
  next
    case False
    have hi: "unat (highest (pack_failed s)) = min ?b ?h"
      by (simp add: pack_failed_fields min_def word_le_nat_alt)
    show ?thesis using False lh lb hi mid
      by (simp add: search_measure_def auto_height_step_def pack_failed_fields(1,2)) arith
  qed
  show "ok \<longrightarrow> range_first s < range_first (auto_height_step ok s) \<and> range_first (auto_height_step ok s) \<le> T"
    using lh okT by (auto simp: auto_height_step_def pack_succeeded_fields word_less_nat_alt word_le_nat_alt)
  show "\<not> ok \<longrightarrow> range_second (auto_height_step ok s) - range_first (auto_height_step ok s)
            < range_second s - range_first s"
  proof
    assume "\<not> ok"
    have d: "unat ((range_second s - range_first s) div 2) = (?h - ?l) div 2"
      using le by (simp add: unat_div unat_sub)
    have e: "unat (range_second s - range_first s) = ?h - ?l" using le by (simp add: unat_sub)
    show "range_second (auto_height_step ok s) - range_first (auto_height_step ok s)
            < range_second s - range_first s"
      using lh \<open>\<not> ok\<close> by (simp add: auto_height_step_def pack_failed_fields word_less_nat_alt d e)
  qed
qed

section \<open>Termination of the search\<close>

lemma initial_search_inv:
  assumes "tex_dims_height cfg < 2 ^ 63"
  shows "search_inv (tex_dims_height cfg) (max_char_height cfg) (initial_search cfg)"
  using small_no_wrap [OF assms]
  by (simp add: search_inv_def initial_search_def word_le_nat_alt word_less_nat_alt)

lemma reachable_inv:
  assumes "reachable may_pack cfg s" "tex_dims_height cfg < 2 ^ 63"
    and "max_char_height cfg \<le> tex_dims_height cfg \<or> (\<forall>h. may_pack h \<longrightarrow> h \<le> tex_dims_height cfg)"
  shows "search_inv (tex_dims_height cfg) (max_char_height cfg) s"
  using assms
proof (induction rule: reachable.induct)
  case start
  then show ?case by (simp add: initial_search_inv)
next
  case (probe s ok)
  have "max_char_height cfg \<le> tex_dims_height cfg \<or> (ok \<longrightarrow> range_second s \<le> tex_dims_height cfg)"
    using probe.hyps(3) probe.prems(2) by blast
  with probe show ?case by (simp add: search_inv_step(1))
qed

lemma search_inv_bound:
  assumes "search_inv T H s" "T < 2 ^ 63"
  shows "range_second s \<le> max H T" "highest s - 1 \<le> T"
proof -
  have lt: "range_first s < highest s" using assms(1) by (simp add: search_inv_def)
  have p: "unat (highest s - 1) = unat (highest s) - 1" by (rule pred_unat [OF lt])
  have T1: "unat (T + 1) = unat T + 1" by (rule small_no_wrap [OF assms(2)])
  have b: "unat (highest s) \<le> unat T + 1"
    using assms(1) T1 by (simp add: search_inv_def word_le_nat_alt)
  have "unat (range_second s) < unat (highest s) \<or> unat (range_second s) \<le> unat H"
    using assms(1) by (auto simp: search_inv_def word_le_nat_alt word_less_nat_alt)
  then show "range_second s \<le> max H T"
    using b by (auto simp: word_le_nat_alt max_def)
  show "highest s - 1 \<le> T" using b p by (simp add: word_le_nat_alt)
qed

lemma loop_states_reachable:
  assumes "auto_height_loop bp sh w cfg s evs = Some y"
  shows "reachable may_pack cfg0 s
     \<Longrightarrow> (\<forall>w c. fst (fst (bp w c False)) \<longrightarrow> may_pack (max_char_height c))
     \<Longrightarrow> reachable may_pack cfg0 (fst (snd y))
         \<and> (\<forall>h. Print_trying h \<in> set (snd (snd (snd y))) \<longrightarrow> Print_trying h \<in> set evs
               \<or> (\<exists>t. reachable may_pack cfg0 t \<and> range_first t \<noteq> range_second t \<and> range_second t = h))"
  using assms
proof (induct rule: auto_height_loop.raw_induct [rotated 1, consumes 1, case_names 1])
  case (1 loop bp sh w cfg s evs y)
  show ?case
  proof (cases "range_first s = range_second s")
    case True
    with 1(2) have "y = (cfg, s, w, evs)" by simp
    then show ?thesis using "1.prems"(1) by simp
  next
    case False
    let ?cfg1 = "cfg\<lparr>max_char_height := range_second s\<rparr>"
    let ?r = "bp w ?cfg1 False"
    let ?evs1 = "evs @ Print_trying (range_second s) # build_charset_log sh ?cfg1 @ [Print_packing_atlas]"
    from 1(2) False have call: "loop bp sh (snd ?r) ?cfg1 (auto_height_step (fst (fst ?r)) s) ?evs1 = Some y"
      by (simp add: Let_def)
    have ok: "fst (fst ?r) \<longrightarrow> may_pack (range_second s)" using "1.prems"(2) [rule_format, of w ?cfg1] by simp
    have r1: "reachable may_pack cfg0 (auto_height_step (fst (fst ?r)) s)"
      by (rule reachable.probe [OF "1.prems"(1) False ok])
    from 1(1) [OF call r1 "1.prems"(2)]
    have a: "reachable may_pack cfg0 (fst (snd y))"
      and b: "\<forall>h. Print_trying h \<in> set (snd (snd (snd y))) \<longrightarrow> Print_trying h \<in> set ?evs1
               \<or> (\<exists>t. reachable may_pack cfg0 t \<and> range_first t \<noteq> range_second t \<and> range_second t = h)"
      by blast+
    have "Print_trying h \<in> set ?evs1 \<Longrightarrow> Print_trying h \<in> set evs
               \<or> (\<exists>t. reachable may_pack cfg0 t \<and> range_first t \<noteq> range_second t \<and> range_second t = h)" for h
      using "1.prems"(1) False by (auto simp: build_charset_log_def)
    then show ?thesis using a b by blast
  qed
qed

lemma same_settings:
  assumes "cfg\<lparr>max_char_height := 0\<rparr> = cfg0\<lparr>max_char_height := 0\<rparr>"
  shows "cfg\<lparr>max_char_height := h\<rparr> = cfg0\<lparr>max_char_height := h\<rparr>"
proof -
  have "(cfg\<lparr>max_char_height := 0\<rparr>)\<lparr>max_char_height := h\<rparr> = (cfg0\<lparr>max_char_height := 0\<rparr>)\<lparr>max_char_height := h\<rparr>"
    using assms by (rule arg_cong)
  then show ?thesis by simp
qed

lemma probe_allowed:
  assumes fits: "H \<le> T \<or> (\<forall>w h. fst (fst (bp w (cfg0\<lparr>max_char_height := h\<rparr>) False)) \<longrightarrow> h \<le> T)"
    and same: "cfg\<lparr>max_char_height := 0\<rparr> = cfg0\<lparr>max_char_height := 0\<rparr>"
  shows "H \<le> T \<or> (fst (fst (bp w (cfg\<lparr>max_char_height := h\<rparr>) False)) \<longrightarrow> h \<le> T)"
  using fits unfolding same_settings [OF same, of h] by blast

lemma auto_height_loop_returns:
  assumes T: "T < 2 ^ 63"
    and fits: "H \<le> T \<or> (\<forall>w h. fst (fst (bp w (cfg0\<lparr>max_char_height := h\<rparr>) False)) \<longrightarrow> h \<le> T)"
    and inv: "search_inv T H s"
    and same: "cfg\<lparr>max_char_height := 0\<rparr> = cfg0\<lparr>max_char_height := 0\<rparr>"
  shows "\<exists>cfg' s' w' evs'. auto_height_loop bp sh w cfg s evs = Some (cfg', s', w', evs')
        \<and> range_first s' = range_second s' \<and> search_inv T H s'"
proof -
  have "wf search_measure" by (simp add: search_measure_def)
  then show ?thesis using inv same
  proof (induction s arbitrary: w cfg evs rule: wf_induct_rule)
  case (less s)
  show ?case
  proof (cases "range_first s = range_second s")
    case True
    then show ?thesis using less.prems(1) by (subst auto_height_loop.simps) simp
  next
    case False
    let ?cfg1 = "cfg\<lparr>max_char_height := range_second s\<rparr>"
    let ?r = "bp w ?cfg1 False"
    let ?s1 = "auto_height_step (fst (fst ?r)) s"
    have ok: "H \<le> T \<or> (fst (fst ?r) \<longrightarrow> range_second s \<le> T)"
      by (rule probe_allowed [where bp = bp and ?cfg0.0 = cfg0 and cfg = cfg and w = w
            and h = "range_second s", OF fits less.prems(2)])
    have inv1: "search_inv T H ?s1" by (rule search_inv_step(1) [OF T less.prems(1) False ok])
    have dec: "(?s1, s) \<in> search_measure" by (rule search_inv_step(2) [OF T less.prems(1) False ok])
    have same1: "?cfg1\<lparr>max_char_height := 0\<rparr> = cfg0\<lparr>max_char_height := 0\<rparr>"
      using less.prems(2) by simp
    from less.IH [OF dec inv1 same1]
    obtain cfg' s' w' evs' where
      "auto_height_loop bp sh (snd ?r) ?cfg1 ?s1
         (evs @ Print_trying (range_second s) # build_charset_log sh ?cfg1 @ [Print_packing_atlas])
         = Some (cfg', s', w', evs') \<and> range_first s' = range_second s' \<and> search_inv T H s'"
      by blast
    then show ?thesis using False by (subst auto_height_loop.simps) (simp add: Let_def)
  qed
  qed
qed

section \<open>The loop and the stated step relation\<close>

lemma unat_min:
  fixes a b :: size_t
  shows "unat (min a b) = min (unat a) (unat b)"
  by (simp add: min_def word_le_nat_alt)

lemma spec_step_auto_height_step:
  assumes T: "T < 2 ^ 63" and inv: "search_inv T H s" and ne: "range_first s \<noteq> range_second s"
    and ok: "H \<le> T \<or> (ok \<longrightarrow> range_second s \<le> T)"
  shows "spec_step ok (triple_of s) (triple_of (auto_height_step ok s))"
proof (cases ok)
  case True
  have "range_first (auto_height_step ok s) \<le> T"
    using search_inv_step(4) [OF T inv ne ok] True by simp
  then have hT: "range_second s \<le> T"
    using True by (simp add: auto_height_step_def pack_succeeded_fields)
  have dbl: "unat (range_second s * 2) = unat (range_second s) * 2"
    using double_no_wrap [OF T hT] by simp
  have lt: "range_first s < highest s" using inv by (simp add: search_inv_def)
  have prd: "unat (highest s - 1) = unat (highest s) - 1" by (rule pred_unat [OF lt])
  have "triple_of (auto_height_step ok s)
      = (unat (range_second s), min (unat (range_second s) * 2) (unat (highest s) - 1), unat (highest s))"
    using True by (simp add: triple_of_def auto_height_step_def pack_succeeded_fields unat_min dbl prd)
  then show ?thesis
    using True spec_step.on_success [of "unat (range_first s)" "unat (range_second s)" "unat (highest s)"]
    by (simp add: triple_of_def)
next
  case False
  have le: "range_first s \<le> range_second s" using inv by (simp add: search_inv_def)
  have "triple_of (auto_height_step ok s)
      = (unat (range_first s), unat (range_first s) + (unat (range_second s) - unat (range_first s)) div 2,
         min (unat (highest s)) (unat (range_second s)))"
    using False by (simp add: triple_of_def auto_height_step_def pack_failed_fields unat_min midpoint_unat [OF le])
  then show ?thesis
    using False spec_step.on_failure [of "unat (range_first s)" "unat (range_second s)" "unat (highest s)"]
    by (simp add: triple_of_def)
qed

lemma spec_step_fun: "spec_step ok t a \<Longrightarrow> spec_step ok t b \<Longrightarrow> a = b"
  by (auto elim!: spec_step.cases)

lemma spec_auto_sizer_fun:
  assumes "spec_auto_sizer p w t r" "spec_auto_sizer p w t r'"
  shows "r = r'"
  using assms
proof (induction arbitrary: r' rule: spec_auto_sizer.induct)
  case (terminated low high w bound)
  from terminated(2) terminated(1) show ?case by (auto elim: spec_auto_sizer.cases)
next
  case (probed low high w ok w' bound t r)
  from probed.prems show ?case
  proof (cases rule: spec_auto_sizer.cases)
    case terminated
    with probed.hyps(1) show ?thesis by simp
  next
    case (probed ok2 w2 t2)
    from probed(2) probed.hyps(2) have e: "ok2 = ok" "w2 = w'" by simp_all
    from probed(3) probed.hyps(3) have "t2 = t" unfolding e by (rule spec_step_fun)
    with probed(4) e show ?thesis by (simp add: probed.IH)
  qed
qed

lemma loop_refines_spec:
  assumes "auto_height_loop bp sh w cfg s evs = Some y"
  shows "T < 2 ^ 63 \<Longrightarrow> search_inv T H s
     \<Longrightarrow> cfg\<lparr>max_char_height := 0\<rparr> = cfg0\<lparr>max_char_height := 0\<rparr>
     \<Longrightarrow> H \<le> T \<or> (\<forall>w h. fst (fst (bp w (cfg0\<lparr>max_char_height := h\<rparr>) False)) \<longrightarrow> h \<le> T)
     \<Longrightarrow> spec_auto_sizer (probe_of bp cfg0) w (triple_of s) (unat (range_first (fst (snd y))))
         \<and> (fst y)\<lparr>max_char_height := 0\<rparr> = cfg0\<lparr>max_char_height := 0\<rparr>"
  using assms
proof (induct rule: auto_height_loop.raw_induct [rotated 1, consumes 1, case_names 1])
  case (1 loop bp sh w cfg s evs y)
  note T = "1.prems"(1) and inv = "1.prems"(2) and same = "1.prems"(3) and fits = "1.prems"(4)
  show ?case
  proof (cases "range_first s = range_second s")
    case True
    with 1(2) have y: "y = (cfg, s, w, evs)" by simp
    show ?thesis using True same by (simp add: y triple_of_def spec_auto_sizer.terminated)
  next
    case False
    let ?cfg1 = "cfg\<lparr>max_char_height := range_second s\<rparr>"
    let ?r = "bp w ?cfg1 False"
    from 1(2) False have call: "loop bp sh (snd ?r) ?cfg1 (auto_height_step (fst (fst ?r)) s)
        (evs @ Print_trying (range_second s) # build_charset_log sh ?cfg1 @ [Print_packing_atlas]) = Some y"
      by (simp add: Let_def)
    have ok: "H \<le> T \<or> (fst (fst ?r) \<longrightarrow> range_second s \<le> T)"
      by (rule probe_allowed [where bp = bp and ?cfg0.0 = cfg0 and cfg = cfg and w = w
            and h = "range_second s", OF fits same])
    have inv1: "search_inv T H (auto_height_step (fst (fst ?r)) s)"
      by (rule search_inv_step(1) [OF T inv False ok])
    have same1: "?cfg1\<lparr>max_char_height := 0\<rparr> = cfg0\<lparr>max_char_height := 0\<rparr>"
      using same by simp
    from 1(1) [OF call T inv1 same1 fits] have ih:
      "spec_auto_sizer (probe_of bp cfg0) (snd ?r) (triple_of (auto_height_step (fst (fst ?r)) s)) (unat (range_first (fst (snd y))))"
      and cf: "(fst y)\<lparr>max_char_height := 0\<rparr> = cfg0\<lparr>max_char_height := 0\<rparr>"
      by simp_all
    have pr: "probe_of bp cfg0 w (unat (range_second s)) = (fst (fst ?r), snd ?r)"
      by (simp add: probe_of_def Let_def same_settings [OF same])
    have ne: "unat (range_first s) \<noteq> unat (range_second s)"
      using False by (simp add: word_unat_eq_iff)
    have st: "spec_step (fst (fst ?r)) (unat (range_first s), unat (range_second s), unat (highest s))
         (triple_of (auto_height_step (fst (fst ?r)) s))"
      using spec_step_auto_height_step [OF T inv False ok] by (simp add: triple_of_def)
    have "spec_auto_sizer (probe_of bp cfg0) w (unat (range_first s), unat (range_second s), unat (highest s))
        (unat (range_first (fst (snd y))))"
      using ne pr st ih by (rule spec_auto_sizer.probed)
    then show ?thesis using cf by (simp add: triple_of_def)
  qed
qed

section \<open>A search that never returns\<close>

lemma cycle_steps:
  "auto_height_step False cycle_a = cycle_b"
  "auto_height_step True cycle_b = cycle_c"
  "auto_height_step True cycle_c = cycle_a"
  by (simp_all add: auto_height_step_def pack_failed_def pack_succeeded_def cycle_a_def cycle_b_def cycle_c_def)

lemma cycle_never_returns:
  assumes "auto_height_loop bp sh w cfg s evs = Some y"
  shows "\<not> (bp = never_at_zero \<and> (s = cycle_a \<or> s = cycle_b \<or> s = cycle_c))"
  using assms
proof (induct rule: auto_height_loop.raw_induct [rotated 1, consumes 1, case_names 1])
  case (1 loop bp sh w cfg s evs y)
  show ?case
  proof
    assume a: "bp = never_at_zero \<and> (s = cycle_a \<or> s = cycle_b \<or> s = cycle_c)"
    then have bp: "bp = never_at_zero" by simp
    from a consider "s = cycle_a" | "s = cycle_b" | "s = cycle_c" by blast
    then show False
    proof cases
      case 1
      have "loop never_at_zero sh w (cfg\<lparr>max_char_height := 0\<rparr>) cycle_b
         (evs @ Print_trying 0 # build_charset_log sh (cfg\<lparr>max_char_height := 0\<rparr>) @ [Print_packing_atlas]) = Some y"
        using "1.hyps"(2) cycle_steps(1) unfolding bp 1 by (simp add: cycle_a_def never_at_zero_def Let_def)
      from "1.hyps"(1) [OF this] show False by simp
    next
      case 2
      let ?c = "cfg\<lparr>max_char_height := 2 ^ 63 + 2 ^ 62\<rparr>"
      have "loop never_at_zero sh w ?c cycle_c
         (evs @ Print_trying (2 ^ 63 + 2 ^ 62) # build_charset_log sh ?c @ [Print_packing_atlas]) = Some y"
        using "1.hyps"(2) cycle_steps(2) unfolding bp 2 by (simp add: cycle_b_def never_at_zero_def Let_def)
      from "1.hyps"(1) [OF this] show False by simp
    next
      case 3
      let ?c = "cfg\<lparr>max_char_height := 2 ^ 63\<rparr>"
      have "loop never_at_zero sh w ?c cycle_a
         (evs @ Print_trying (2 ^ 63) # build_charset_log sh ?c @ [Print_packing_atlas]) = Some y"
        using "1.hyps"(2) cycle_steps(3) unfolding bp 3 by (simp add: cycle_c_def never_at_zero_def Let_def)
      from "1.hyps"(1) [OF this] show False by simp
    qed
  qed
qed

lemma lead_in_steps:
  "range_first (initial_search (demo_settings 0 1 a b)) \<noteq> range_second (initial_search (demo_settings 0 1 a b))"
  "auto_height_step (range_second (initial_search (demo_settings 0 1 a b)) \<noteq> 0)
     (initial_search (demo_settings 0 1 a b)) = lead_in_1"
  "range_first lead_in_1 \<noteq> range_second lead_in_1"
  "auto_height_step (range_second lead_in_1 \<noteq> 0) lead_in_1 = lead_in_2"
  "range_first lead_in_2 \<noteq> range_second lead_in_2"
  "auto_height_step (range_second lead_in_2 \<noteq> 0) lead_in_2 = cycle_a"
  by (simp_all add: auto_height_step_def pack_failed_def pack_succeeded_def cycle_a_def
      lead_in_1_def lead_in_2_def initial_search_def demo_settings_def)

lemma never_at_zero_unfold:
  assumes "range_first s \<noteq> range_second s"
  shows "\<exists>cfg' evs'. auto_height_loop never_at_zero sh w cfg s evs
     = auto_height_loop never_at_zero sh w cfg' (auto_height_step (range_second s \<noteq> 0) s) evs'"
  using assms by (subst auto_height_loop.simps) (simp add: never_at_zero_def Let_def, blast)

lemma reach_cycle:
  "\<exists>cfg evs. auto_height_loop never_at_zero sh w (demo_settings 0 1 True False) (initial_search (demo_settings 0 1 True False)) []
   = auto_height_loop never_at_zero sh w cfg cycle_a evs"
proof -
  let ?c = "demo_settings 0 1 True False"
  from never_at_zero_unfold [OF lead_in_steps(1)] obtain c1 e1 where
    1: "auto_height_loop never_at_zero sh w ?c (initial_search ?c) []
        = auto_height_loop never_at_zero sh w c1 lead_in_1 e1"
    unfolding lead_in_steps(2) by blast
  from never_at_zero_unfold [OF lead_in_steps(3)] obtain c2 e2 where
    2: "auto_height_loop never_at_zero sh w c1 lead_in_1 e1
        = auto_height_loop never_at_zero sh w c2 lead_in_2 e2"
    unfolding lead_in_steps(4) by blast
  from never_at_zero_unfold [OF lead_in_steps(5)] obtain c3 e3 where
    3: "auto_height_loop never_at_zero sh w c2 lead_in_2 e2
        = auto_height_loop never_at_zero sh w c3 cycle_a e3"
    unfolding lead_in_steps(6) by blast
  show ?thesis unfolding 1 2 3 by blast
qed

lemma never_at_zero_loop_None: "auto_height_loop never_at_zero [] () (demo_settings 0 1 True False) (initial_search (demo_settings 0 1 True False)) [] = None"
proof (cases "auto_height_loop never_at_zero [] () (demo_settings 0 1 True False) (initial_search (demo_settings 0 1 True False)) []")
  case None
  then show ?thesis .
next
  case (Some y)
  moreover obtain cfg evs where "auto_height_loop never_at_zero [] () (demo_settings 0 1 True False) (initial_search (demo_settings 0 1 True False)) []
   = auto_height_loop never_at_zero [] () cfg cycle_a evs" using reach_cycle by blast
  ultimately have "auto_height_loop never_at_zero [] () cfg cycle_a evs = Some y" by simp
  from cycle_never_returns [OF this] show ?thesis by simp
qed

section \<open>The claims about the search\<close>

lemma phase_auto:
  assumes "auto_height cfg"
  shows "auto_height_phase bp sh w cfg =
     (case auto_height_loop bp sh w cfg (initial_search cfg) [] of None \<Rightarrow> None
      | Some (cfg1, s, w1, evs) \<Rightarrow> Some (cfg1\<lparr>max_char_height := range_first s\<rparr>, w1, evs))"
  using assms by (simp add: auto_height_phase_def)

lemma demo_phase:
  "auto_height_phase fits_texture [] () (demo_settings 4 32 True False)
     = Some ((demo_settings 4 32 True False)\<lparr>max_char_height := 4\<rparr>, (),
         [Print_trying 32, Scaling_division 32 0, Print_packing_atlas,
          Print_trying 16, Scaling_division 16 0, Print_packing_atlas,
          Print_trying 8, Scaling_division 8 0, Print_packing_atlas,
          Print_trying 4, Scaling_division 4 0, Print_packing_atlas])"
  by (simp add: auto_height_phase_def initial_search_def demo_settings_def fits_texture_def
      auto_height_loop.simps Let_def auto_height_step_def pack_succeeded_def pack_failed_def
      build_charset_log_def maxheight_of_def)

lemma demo_phase_wraps:
  "auto_height_phase (packs_glyphs []) [] () (demo_settings 64 (2 ^ 63) True False)
     = Some ((demo_settings 64 (2 ^ 63) True False)\<lparr>max_char_height := 0\<rparr>, (),
         [Print_trying (2 ^ 63), Scaling_division (2 ^ 63) 0, Print_packing_atlas,
          Print_trying 0, Scaling_division 0 0, Print_packing_atlas])"
  by (simp add: auto_height_phase_def initial_search_def demo_settings_def packs_glyphs_def
      auto_height_loop.simps Let_def auto_height_step_def pack_succeeded_def pack_failed_def
      build_charset_log_def maxheight_of_def)

lemma demo_spec_search:
  "spec_auto_sizer (probe_of (packs_glyphs []) (demo_settings 64 (2 ^ 63) True False)) ()
     (spec_initial (demo_settings 64 (2 ^ 63) True False)) 64"
proof -
  let ?p = "probe_of (packs_glyphs []) (demo_settings 64 (2 ^ 63) True False)"
  have p: "?p () n = (True, ())" for n by (simp add: probe_of_def packs_glyphs_def)
  have s1: "spec_step True (0, 2 ^ 63, 65) (2 ^ 63, 64, 65)"
    using spec_step.on_success [of 0 "2 ^ 63" 65] by simp
  have s2: "spec_step True (2 ^ 63, 64, 65) (64, 64, 65)"
    using spec_step.on_success [of "2 ^ 63" 64 65] by simp
  have n1: "(0 :: nat) \<noteq> 2 ^ 63" and n2: "(2 :: nat) ^ 63 \<noteq> 64" by simp_all
  have "spec_auto_sizer ?p () (64, 64, 65) 64" by (rule spec_auto_sizer.terminated) simp
  with n2 p [of 64] s2 have "spec_auto_sizer ?p () (2 ^ 63, 64, 65) 64"
    by (rule spec_auto_sizer.probed)
  with n1 p [of "2 ^ 63"] s1 have "spec_auto_sizer ?p () (0, 2 ^ 63, 65) 64"
    by (rule spec_auto_sizer.probed)
  moreover have "spec_initial (demo_settings 64 (2 ^ 63) True False) = (0, 2 ^ 63, 65)"
    by (simp add: spec_initial_def demo_settings_def)
  ultimately show ?thesis by simp
qed

lemma demo_run_doubles:
  "auto_height_loop (fits_up_to 100) [] () (demo_settings 100 1 True False)
     (initial_search (demo_settings 100 1 True False)) []
   = Some ((demo_settings 100 1 True False)\<lparr>max_char_height := 100\<rparr>,
           \<lparr>range_first = 100, range_second = 100, highest = 101\<rparr>, (),
           [Print_trying 1, Scaling_division 1 0, Print_packing_atlas,
            Print_trying 2, Scaling_division 2 0, Print_packing_atlas,
            Print_trying 4, Scaling_division 4 0, Print_packing_atlas,
            Print_trying 8, Scaling_division 8 0, Print_packing_atlas,
            Print_trying 16, Scaling_division 16 0, Print_packing_atlas,
            Print_trying 32, Scaling_division 32 0, Print_packing_atlas,
            Print_trying 64, Scaling_division 64 0, Print_packing_atlas,
            Print_trying 100, Scaling_division 100 0, Print_packing_atlas])"
  by (simp add: initial_search_def demo_settings_def fits_up_to_def
      auto_height_loop.simps Let_def auto_height_step_def pack_succeeded_def pack_failed_def
      build_charset_log_def maxheight_of_def)

lemma demo_run_bisects:
  "\<exists>y. auto_height_loop (fits_up_to 60) [] () (demo_settings 64 1000 True False)
         (initial_search (demo_settings 64 1000 True False)) [] = Some y
       \<and> Print_trying 500 \<in> set (snd (snd (snd y)))"
  by (simp add: initial_search_def demo_settings_def fits_up_to_def
      auto_height_loop.simps Let_def auto_height_step_def pack_succeeded_def pack_failed_def
      build_charset_log_def maxheight_of_def)

lemma demo_reachable:
  "reachable (\<lambda>h. h \<le> 64) (demo_settings 64 1000 True False)
     (auto_height_step False (initial_search (demo_settings 64 1000 True False)))"
proof -
  have "range_first (initial_search (demo_settings 64 1000 True False)) \<noteq> range_second (initial_search (demo_settings 64 1000 True False))"
    and "False \<longrightarrow> range_second (initial_search (demo_settings 64 1000 True False)) \<le> 64"
    by (simp_all add: initial_search_def demo_settings_def)
  then show ?thesis by (rule reachable.probe [OF reachable.start])
qed

text \<open>
  Claim C1, as amended. Let automatic sizing be on, the texture height be below \<open>2 ^ 63\<close>,
  and the requested char height be at most the texture height or no probe above the texture
  height succeed. Then the loop variables of \<^verbatim>\<open>run\<close>, read as numbers, start in the initial
  state of the specification, and every iteration made from a state reachable with
  successes at heights up to the texture height only follows the stated step relation.
  \<^verbatim>\<open>run\<close> commits the height \<open>h\<close> (its first part returns with \<^verbatim>\<open>cfg.max_char_height = h\<close> and
  nothing else of the settings changed, and the final full run is made with these settings)
  exactly when the search of the specification, on the answers of the same probes,
  terminates in a state with \<open>low = high\<close> and \<open>low = h\<close>; and it does terminate.
\<close>

theorem auto_sizer_follows_step_relation:
  assumes "auto_height cfg" "tex_dims_height cfg < 2 ^ 63"
    and "max_char_height cfg \<le> tex_dims_height cfg
         \<or> (\<forall>w h. fst (fst (bp w (cfg\<lparr>max_char_height := h\<rparr>) False)) \<longrightarrow> h \<le> tex_dims_height cfg)"
  shows "triple_of (initial_search cfg) = spec_initial cfg
         \<and> (\<forall>s ok. reachable (\<lambda>h. h \<le> tex_dims_height cfg) cfg s \<and> range_first s \<noteq> range_second s
                 \<and> (ok \<longrightarrow> range_second s \<le> tex_dims_height cfg) \<longrightarrow>
               spec_step ok (triple_of s) (triple_of (auto_height_step ok s)))
         \<and> ((\<exists>w1 evs. auto_height_phase bp sh w cfg = Some (cfg\<lparr>max_char_height := h\<rparr>, w1, evs)
                \<and> run bp sh w cfg = Some (run_final bp sh w1 (cfg\<lparr>max_char_height := h\<rparr>) evs))
             \<longleftrightarrow> spec_auto_sizer (probe_of bp cfg) w (spec_initial cfg) (unat h))
         \<and> (\<exists>n. spec_auto_sizer (probe_of bp cfg) w (spec_initial cfg) n)"
proof -
  have inv0: "search_inv (tex_dims_height cfg) (max_char_height cfg) (initial_search cfg)"
    by (rule initial_search_inv [OF assms(2)])
  have t0: "triple_of (initial_search cfg) = spec_initial cfg"
    using small_no_wrap [OF assms(2)] by (simp add: triple_of_def initial_search_def spec_initial_def)
  obtain cfg1 s1 w1 evs1 where lp: "auto_height_loop bp sh w cfg (initial_search cfg) [] = Some (cfg1, s1, w1, evs1)"
    using auto_height_loop_returns [where bp = bp and sh = sh and w = w and cfg = cfg and evs = "[]"
        and ?cfg0.0 = cfg, OF assms(2) assms(3) inv0 refl] by blast
  from loop_refines_spec [OF lp assms(2) inv0 refl assms(3)]
  have sp: "spec_auto_sizer (probe_of bp cfg) w (spec_initial cfg) (unat (range_first s1))"
    and c: "cfg1\<lparr>max_char_height := 0\<rparr> = cfg\<lparr>max_char_height := 0\<rparr>"
    by (simp_all add: t0)
  have ph: "auto_height_phase bp sh w cfg = Some (cfg\<lparr>max_char_height := range_first s1\<rparr>, w1, evs1)"
    by (simp add: phase_auto [OF assms(1)] lp same_settings [OF c])
  have iff: "(\<exists>w1 evs. auto_height_phase bp sh w cfg = Some (cfg\<lparr>max_char_height := h\<rparr>, w1, evs)
                \<and> run bp sh w cfg = Some (run_final bp sh w1 (cfg\<lparr>max_char_height := h\<rparr>) evs))
             \<longleftrightarrow> spec_auto_sizer (probe_of bp cfg) w (spec_initial cfg) (unat h)"
  proof
    assume "\<exists>w1 evs. auto_height_phase bp sh w cfg = Some (cfg\<lparr>max_char_height := h\<rparr>, w1, evs)
                \<and> run bp sh w cfg = Some (run_final bp sh w1 (cfg\<lparr>max_char_height := h\<rparr>) evs)"
    then have "cfg\<lparr>max_char_height := range_first s1\<rparr> = cfg\<lparr>max_char_height := h\<rparr>"
      using ph by auto
    then have "max_char_height (cfg\<lparr>max_char_height := range_first s1\<rparr>) = max_char_height (cfg\<lparr>max_char_height := h\<rparr>)"
      by (rule arg_cong)
    then have "range_first s1 = h" by simp
    with sp show "spec_auto_sizer (probe_of bp cfg) w (spec_initial cfg) (unat h)" by simp
  next
    assume "spec_auto_sizer (probe_of bp cfg) w (spec_initial cfg) (unat h)"
    with sp have "unat (range_first s1) = unat h" by (rule spec_auto_sizer_fun)
    then have "range_first s1 = h" by (simp add: word_unat_eq_iff)
    then show "\<exists>w1 evs. auto_height_phase bp sh w cfg = Some (cfg\<lparr>max_char_height := h\<rparr>, w1, evs)
                \<and> run bp sh w cfg = Some (run_final bp sh w1 (cfg\<lparr>max_char_height := h\<rparr>) evs)"
      using ph by (simp add: run_def)
  qed
  have step: "spec_step ok (triple_of s) (triple_of (auto_height_step ok s))"
    if r: "reachable (\<lambda>h. h \<le> tex_dims_height cfg) cfg s" and ne: "range_first s \<noteq> range_second s"
      and ok: "ok \<longrightarrow> range_second s \<le> tex_dims_height cfg" for s ok
  proof -
    have inv: "search_inv (tex_dims_height cfg) (max_char_height cfg) s"
      using reachable_inv [OF r assms(2)] by simp
    have ok': "max_char_height cfg \<le> tex_dims_height cfg \<or> (ok \<longrightarrow> range_second s \<le> tex_dims_height cfg)"
      using ok by simp
    show ?thesis by (rule spec_step_auto_height_step [OF assms(2) inv ne ok'])
  qed
  from sp have ex: "\<exists>n. spec_auto_sizer (probe_of bp cfg) w (spec_initial cfg) n" by blast
  show ?thesis using t0 step iff ex by blast
qed

text \<open>
  The theorem at a texture of height 4 and a requested height 32, with a packer that fits
  heights up to the texture height: the probes are 32, 16, 8 (none fits) and 4 (fits), the
  committed height is 4, and the search of the specification, started at \<open>(0, 32, 5)\<close>, ends
  with 4.
\<close>

theorem auto_sizer_follows_step_relation_witness:
  "auto_height (demo_settings 4 32 True False)
   \<and> tex_dims_height (demo_settings 4 32 True False) < 2 ^ 63
   \<and> \<not> max_char_height (demo_settings 4 32 True False) \<le> tex_dims_height (demo_settings 4 32 True False)
   \<and> spec_initial (demo_settings 4 32 True False) = (0, 32, 5)
   \<and> run fits_texture [] () (demo_settings 4 32 True False)
       = Some (run_final fits_texture [] () ((demo_settings 4 32 True False)\<lparr>max_char_height := 4\<rparr>)
           [Print_trying 32, Scaling_division 32 0, Print_packing_atlas,
            Print_trying 16, Scaling_division 16 0, Print_packing_atlas,
            Print_trying 8, Scaling_division 8 0, Print_packing_atlas,
            Print_trying 4, Scaling_division 4 0, Print_packing_atlas])
   \<and> spec_auto_sizer (probe_of fits_texture (demo_settings 4 32 True False)) ()
        (spec_initial (demo_settings 4 32 True False)) 4"
proof -
  let ?c = "demo_settings 4 32 True False"
  have a: "auto_height ?c" and b: "tex_dims_height ?c < 2 ^ 63"
    and n: "\<not> max_char_height ?c \<le> tex_dims_height ?c"
    and i: "spec_initial ?c = (0, 32, 5)"
    by (simp_all add: demo_settings_def spec_initial_def)
  have f: "max_char_height ?c \<le> tex_dims_height ?c
         \<or> (\<forall>w h. fst (fst (fits_texture w (?c\<lparr>max_char_height := h\<rparr>) False)) \<longrightarrow> h \<le> tex_dims_height ?c)"
    by (simp add: fits_texture_def demo_settings_def)
  have r: "run fits_texture [] () ?c
       = Some (run_final fits_texture [] () (?c\<lparr>max_char_height := 4\<rparr>)
           [Print_trying 32, Scaling_division 32 0, Print_packing_atlas,
            Print_trying 16, Scaling_division 16 0, Print_packing_atlas,
            Print_trying 8, Scaling_division 8 0, Print_packing_atlas,
            Print_trying 4, Scaling_division 4 0, Print_packing_atlas])"
    by (simp add: run_def demo_phase)
  note t = auto_sizer_follows_step_relation [where bp = fits_texture and sh = "[]" and w = "()" and h = 4,
      OF a b f]
  from t demo_phase r have s: "spec_auto_sizer (probe_of fits_texture ?c) () (spec_initial ?c) 4"
    by simp
  show ?thesis by (intro conjI) (rule a b n i r s)+
qed

text \<open>
  Claim C1 as stated fails: with texture height 64 and requested height \<open>2 ^ 63\<close>, and a packer
  that fits every height, the probe at \<open>2 ^ 63\<close> succeeds and \<^verbatim>\<open>range.first * 2\<close> wraps to 0, so
  the next probe is at 0 and \<^verbatim>\<open>run\<close> commits the height 0. The search of the specification
  goes from \<open>(0, 2 ^ 63, 65)\<close> to \<open>(2 ^ 63, 64, 65)\<close> and \<open>(64, 64, 65)\<close>: it ends with 64, not 0.
\<close>

theorem auto_sizer_wraps_where_the_relation_does_not:
  "run (packs_glyphs []) [] () (demo_settings 64 (2 ^ 63) True False)
     = Some (run_final (packs_glyphs []) [] () ((demo_settings 64 (2 ^ 63) True False)\<lparr>max_char_height := 0\<rparr>)
         [Print_trying (2 ^ 63), Scaling_division (2 ^ 63) 0, Print_packing_atlas,
          Print_trying 0, Scaling_division 0 0, Print_packing_atlas])
   \<and> spec_auto_sizer (probe_of (packs_glyphs []) (demo_settings 64 (2 ^ 63) True False)) ()
        (spec_initial (demo_settings 64 (2 ^ 63) True False)) 64
   \<and> \<not> spec_auto_sizer (probe_of (packs_glyphs []) (demo_settings 64 (2 ^ 63) True False)) ()
        (spec_initial (demo_settings 64 (2 ^ 63) True False)) 0"
proof -
  have n: "\<not> spec_auto_sizer (probe_of (packs_glyphs []) (demo_settings 64 (2 ^ 63) True False)) ()
        (spec_initial (demo_settings 64 (2 ^ 63) True False)) 0"
  proof
    assume "spec_auto_sizer (probe_of (packs_glyphs []) (demo_settings 64 (2 ^ 63) True False)) ()
        (spec_initial (demo_settings 64 (2 ^ 63) True False)) 0"
    with demo_spec_search have "(64 :: nat) = 0" by (rule spec_auto_sizer_fun)
    then show False by simp
  qed
  have r: "run (packs_glyphs []) [] () (demo_settings 64 (2 ^ 63) True False)
     = Some (run_final (packs_glyphs []) [] () ((demo_settings 64 (2 ^ 63) True False)\<lparr>max_char_height := 0\<rparr>)
         [Print_trying (2 ^ 63), Scaling_division (2 ^ 63) 0, Print_packing_atlas,
          Print_trying 0, Scaling_division 0 0, Print_packing_atlas])"
    unfolding run_def demo_phase_wraps by simp
  show ?thesis by (intro conjI) (rule r demo_spec_search n)+
qed

text \<open>
  Claim C6, as amended. Let the texture height be below \<open>2 ^ 63\<close>, and let the requested char
  height be at most the texture height or the packer succeed at no height above the
  texture height. Then in every reachable state of the search \<open>low \<le> high\<close>, the probed
  height \<open>high\<close> is at most the larger of the requested height and the texture height, and
  \<open>highest - 1\<close> is at most the texture height. The doubling step is bounded by \<open>highest - 1\<close>
  only; the requested height is no bound of it. The same bound holds for every height
  that a returning search has printed as tried.
\<close>

theorem probed_height_bounded:
  assumes "reachable may_pack cfg s" "tex_dims_height cfg < 2 ^ 63"
    and "max_char_height cfg \<le> tex_dims_height cfg \<or> (\<forall>h. may_pack h \<longrightarrow> h \<le> tex_dims_height cfg)"
  shows "range_first s \<le> range_second s
         \<and> range_second s \<le> max (max_char_height cfg) (tex_dims_height cfg)
         \<and> highest s - 1 \<le> tex_dims_height cfg
         \<and> range_second (auto_height_step True s) = min (range_second s * 2) (highest s - 1)
         \<and> (auto_height_loop bp sh w cfg (initial_search cfg) [] = Some y
              \<and> (\<forall>w c. fst (fst (bp w c False)) \<longrightarrow> may_pack (max_char_height c))
              \<and> Print_trying h \<in> set (snd (snd (snd y)))
            \<longrightarrow> h \<le> max (max_char_height cfg) (tex_dims_height cfg))"
proof -
  have inv: "search_inv (tex_dims_height cfg) (max_char_height cfg) s" by (rule reachable_inv [OF assms])
  have log: "h \<le> max (max_char_height cfg) (tex_dims_height cfg)"
    if l: "auto_height_loop bp sh w cfg (initial_search cfg) [] = Some y"
      and o: "\<forall>w c. fst (fst (bp w c False)) \<longrightarrow> may_pack (max_char_height c)"
      and p: "Print_trying h \<in> set (snd (snd (snd y)))"
  proof -
    from loop_states_reachable [OF l reachable.start o] p
    obtain t where t: "reachable may_pack cfg t" "range_second t = h" by auto
    from search_inv_bound(1) [OF reachable_inv [OF t(1) assms(2,3)] assms(2)] t(2)
    show ?thesis by simp
  qed
  show ?thesis using inv search_inv_bound [OF inv assms(2)] log
    by (simp add: search_inv_def auto_height_step_def pack_succeeded_fields)
qed

text \<open>
  The theorem at texture height 64 and requested height 1000, in the state after the first
  probe, which fails: the next probe is at height 500, and a search with a packer that
  fits heights up to 60 prints 500 as tried.
\<close>

theorem probed_height_bounded_witness:
  "reachable (\<lambda>h. h \<le> 64) (demo_settings 64 1000 True False)
     (auto_height_step False (initial_search (demo_settings 64 1000 True False)))
   \<and> tex_dims_height (demo_settings 64 1000 True False) < 2 ^ 63
   \<and> range_second (auto_height_step False (initial_search (demo_settings 64 1000 True False))) = 500
   \<and> range_second (auto_height_step False (initial_search (demo_settings 64 1000 True False)))
        \<le> max (max_char_height (demo_settings 64 1000 True False)) (tex_dims_height (demo_settings 64 1000 True False))
   \<and> highest (auto_height_step False (initial_search (demo_settings 64 1000 True False))) - 1
        \<le> tex_dims_height (demo_settings 64 1000 True False)
   \<and> (\<exists>y. auto_height_loop (fits_up_to 60) [] () (demo_settings 64 1000 True False)
             (initial_search (demo_settings 64 1000 True False)) [] = Some y
          \<and> Print_trying 500 \<in> set (snd (snd (snd y))))
   \<and> (500 :: size_t) \<le> max (max_char_height (demo_settings 64 1000 True False))
                            (tex_dims_height (demo_settings 64 1000 True False))"
proof -
  let ?c = "demo_settings 64 1000 True False"
  have b: "tex_dims_height ?c < 2 ^ 63"
    by (simp add: demo_settings_def)
  have c: "max_char_height ?c \<le> tex_dims_height ?c \<or> (\<forall>h. h \<le> 64 \<longrightarrow> h \<le> tex_dims_height ?c)"
    by (simp add: demo_settings_def)
  have d: "range_second (auto_height_step False (initial_search ?c)) = 500"
    by (simp add: initial_search_def demo_settings_def auto_height_step_def pack_failed_def)
  have "max_char_height k \<le> 64" if "max_char_height k \<le> 60" for k :: settings
    using that by (simp add: word_le_nat_alt)
  then have o: "\<forall>w k. fst (fst (fits_up_to 60 w k False)) \<longrightarrow> max_char_height k \<le> 64"
    by (simp add: fits_up_to_def)
  obtain y where y: "auto_height_loop (fits_up_to 60) [] () ?c (initial_search ?c) [] = Some y"
    and p: "Print_trying 500 \<in> set (snd (snd (snd y)))"
    using demo_run_bisects by blast
  note t = probed_height_bounded [where bp = "fits_up_to 60" and sh = "[]" and w = "()" and y = y
      and h = 500, OF demo_reachable b c]
  from t y o p have e: "(500 :: size_t) \<le> max (max_char_height ?c) (tex_dims_height ?c)" by blast
  from t demo_reachable b d y p e show ?thesis by blast
qed

text \<open>
  Claim C6 as stated fails: with texture height 100 and requested height 1, after the
  probe at 1 succeeds the next candidate is \<open>min (1 * 2) (101 - 1) = 2\<close>, above the requested
  height; with a packer that fits every height up to 100 the search tries 1, 2, 4, 8, 16,
  32, 64 and 100.
\<close>

theorem probed_height_exceeds_request:
  "reachable (\<lambda>h. h \<le> 100) (demo_settings 100 1 True False)
      (auto_height_step True (initial_search (demo_settings 100 1 True False)))
   \<and> max_char_height (demo_settings 100 1 True False)
       < range_second (auto_height_step True (initial_search (demo_settings 100 1 True False)))
   \<and> (\<exists>y. auto_height_loop (fits_up_to 100) [] () (demo_settings 100 1 True False)
             (initial_search (demo_settings 100 1 True False)) [] = Some y
          \<and> Print_trying 2 \<in> set (snd (snd (snd y))))"
proof -
  have "range_first (initial_search (demo_settings 100 1 True False)) \<noteq> range_second (initial_search (demo_settings 100 1 True False))"
    and "True \<longrightarrow> range_second (initial_search (demo_settings 100 1 True False)) \<le> 100"
    by (simp_all add: initial_search_def demo_settings_def)
  then have "reachable (\<lambda>h. h \<le> 100) (demo_settings 100 1 True False)
      (auto_height_step True (initial_search (demo_settings 100 1 True False)))"
    by (rule reachable.probe [OF reachable.start])
  moreover have "max_char_height (demo_settings 100 1 True False)
       < range_second (auto_height_step True (initial_search (demo_settings 100 1 True False)))"
    by (simp add: initial_search_def demo_settings_def auto_height_step_def pack_succeeded_def)
  moreover have "\<exists>y. auto_height_loop (fits_up_to 100) [] () (demo_settings 100 1 True False)
             (initial_search (demo_settings 100 1 True False)) [] = Some y
          \<and> Print_trying 2 \<in> set (snd (snd (snd y)))"
    by (simp add: demo_run_doubles)
  ultimately show ?thesis by simp
qed

text \<open>
  Claim C7, as amended. Let the texture height be below \<open>2 ^ 63\<close>, and let the requested char
  height be at most the texture height or no probe of the search above the texture height
  succeed. Then the loop returns whatever else the probes answer and whatever they do to
  the world, and so does \<^verbatim>\<open>run\<close>. In every state reachable with successes at heights up to
  the texture height only, in which the loop goes on, a failed probe strictly shrinks
  \<open>high - low\<close> and a successful probe strictly raises \<open>low\<close>, which stays at most the texture
  height.
\<close>

theorem auto_height_search_terminates:
  assumes "tex_dims_height cfg < 2 ^ 63"
    and "max_char_height cfg \<le> tex_dims_height cfg
         \<or> (\<forall>w h. fst (fst (bp w (cfg\<lparr>max_char_height := h\<rparr>) False)) \<longrightarrow> h \<le> tex_dims_height cfg)"
  shows "(\<exists>cfg1 s1 w1 evs1. auto_height_loop bp sh w cfg (initial_search cfg) evs = Some (cfg1, s1, w1, evs1)
            \<and> range_first s1 = range_second s1)
         \<and> (\<exists>r. run bp sh w cfg = Some r)
         \<and> (\<forall>s ok. reachable (\<lambda>h. h \<le> tex_dims_height cfg) cfg s \<and> range_first s \<noteq> range_second s
                 \<and> (ok \<longrightarrow> range_second s \<le> tex_dims_height cfg) \<longrightarrow>
               (\<not> ok \<longrightarrow> range_second (auto_height_step ok s) - range_first (auto_height_step ok s)
                          < range_second s - range_first s)
               \<and> (ok \<longrightarrow> range_first s < range_first (auto_height_step ok s)
                          \<and> range_first (auto_height_step ok s) \<le> tex_dims_height cfg))"
proof -
  have inv0: "search_inv (tex_dims_height cfg) (max_char_height cfg) (initial_search cfg)"
    by (rule initial_search_inv [OF assms(1)])
  have loop: "\<exists>cfg1 s1 w1 evs1. auto_height_loop bp sh w cfg (initial_search cfg) evs = Some (cfg1, s1, w1, evs1)
            \<and> range_first s1 = range_second s1" for evs
    using auto_height_loop_returns [where bp = bp and sh = sh and w = w and cfg = cfg and evs = evs
        and ?cfg0.0 = cfg, OF assms inv0 refl] by blast
  have "\<exists>r. auto_height_phase bp sh w cfg = Some r"
  proof (cases "auto_height cfg")
    case True
    from loop [of "[]"] show ?thesis by (auto simp: phase_auto [OF True])
  next
    case False
    then show ?thesis by (simp add: auto_height_phase_def)
  qed
  then have run: "\<exists>r. run bp sh w cfg = Some r" by (auto simp: run_def)
  have "(\<not> ok \<longrightarrow> range_second (auto_height_step ok s) - range_first (auto_height_step ok s)
                          < range_second s - range_first s)
               \<and> (ok \<longrightarrow> range_first s < range_first (auto_height_step ok s)
                          \<and> range_first (auto_height_step ok s) \<le> tex_dims_height cfg)"
    if r: "reachable (\<lambda>h. h \<le> tex_dims_height cfg) cfg s" and ne: "range_first s \<noteq> range_second s"
      and ok: "ok \<longrightarrow> range_second s \<le> tex_dims_height cfg" for s ok
  proof -
    have inv: "search_inv (tex_dims_height cfg) (max_char_height cfg) s"
      using reachable_inv [OF r assms(1)] by simp
    have ok': "max_char_height cfg \<le> tex_dims_height cfg \<or> (ok \<longrightarrow> range_second s \<le> tex_dims_height cfg)"
      using ok by simp
    from search_inv_step(4,5) [OF assms(1) inv ne ok'] show ?thesis by blast
  qed
  then show ?thesis using loop run by blast
qed

text \<open>
  The theorem at a texture of height 64 and a requested height 1000, with a packer that
  reads the texture height from the settings it is given and fits heights up to it: the
  probes are 1000, 500, 250, 125 (none fits), 62 and 64 (both fit), and the final run is
  made at height 64.
\<close>

theorem auto_height_search_terminates_witness:
  "tex_dims_height (demo_settings 64 1000 True False) < 2 ^ 63
   \<and> \<not> max_char_height (demo_settings 64 1000 True False) \<le> tex_dims_height (demo_settings 64 1000 True False)
   \<and> (\<exists>cfg1 s1 w1 evs1. auto_height_loop fits_texture [] () (demo_settings 64 1000 True False)
          (initial_search (demo_settings 64 1000 True False)) [] = Some (cfg1, s1, w1, evs1)
          \<and> range_first s1 = range_second s1)
   \<and> (\<exists>r. run fits_texture [] () (demo_settings 64 1000 True False) = Some r)
   \<and> run fits_texture [] () (demo_settings 64 1000 True False)
       = Some (run_final fits_texture [] () ((demo_settings 64 1000 True False)\<lparr>max_char_height := 64\<rparr>)
           [Print_trying 1000, Scaling_division 1000 0, Print_packing_atlas,
            Print_trying 500, Scaling_division 500 0, Print_packing_atlas,
            Print_trying 250, Scaling_division 250 0, Print_packing_atlas,
            Print_trying 125, Scaling_division 125 0, Print_packing_atlas,
            Print_trying 62, Scaling_division 62 0, Print_packing_atlas,
            Print_trying 64, Scaling_division 64 0, Print_packing_atlas])"
proof -
  let ?c = "demo_settings 64 1000 True False"
  have b: "tex_dims_height ?c < 2 ^ 63"
    and n: "\<not> max_char_height ?c \<le> tex_dims_height ?c"
    by (simp_all add: demo_settings_def)
  have c: "max_char_height ?c \<le> tex_dims_height ?c
     \<or> (\<forall>w h. fst (fst (fits_texture w (?c\<lparr>max_char_height := h\<rparr>) False)) \<longrightarrow> h \<le> tex_dims_height ?c)"
    by (simp add: fits_texture_def demo_settings_def)
  have r: "run fits_texture [] () ?c
       = Some (run_final fits_texture [] () (?c\<lparr>max_char_height := 64\<rparr>)
           [Print_trying 1000, Scaling_division 1000 0, Print_packing_atlas,
            Print_trying 500, Scaling_division 500 0, Print_packing_atlas,
            Print_trying 250, Scaling_division 250 0, Print_packing_atlas,
            Print_trying 125, Scaling_division 125 0, Print_packing_atlas,
            Print_trying 62, Scaling_division 62 0, Print_packing_atlas,
            Print_trying 64, Scaling_division 64 0, Print_packing_atlas])"
    by (simp add: run_def auto_height_phase_def initial_search_def demo_settings_def fits_texture_def
      auto_height_loop.simps Let_def auto_height_step_def pack_succeeded_def pack_failed_def
      build_charset_log_def maxheight_of_def)
  from auto_height_search_terminates [where bp = fits_texture and sh = "[]" and w = "()" and evs = "[]", OF b c] b n r
  show ?thesis by blast
qed

text \<open>
  Claim C7 as stated fails: with texture height 0 and requested height 1, and a packer
  that fits every height but 0, the probes are 1 (fits), 0 (does not: \<open>highest\<close> becomes 0 and
  \<open>range.second - range.first\<close> wraps), \<open>2 ^ 63\<close> (fits: \<open>range.first * 2\<close> wraps to 0), and from
  there 0, \<open>2 ^ 63 + 2 ^ 62\<close>, \<open>2 ^ 63\<close> for ever. The loop never returns, and neither does
  \<^verbatim>\<open>run\<close>.
\<close>

theorem auto_height_search_can_run_forever:
  "auto_height_loop never_at_zero [] () (demo_settings 0 1 True False)
       (initial_search (demo_settings 0 1 True False)) [] = None
   \<and> run never_at_zero [] () (demo_settings 0 1 True False) = None"
  using never_at_zero_loop_None by (simp add: run_def auto_height_phase_def demo_settings_def)

section \<open>What run prints and writes\<close>



lemma run_final_failed:
  assumes "\<not> fst (fst (bp w cfg True))"
  shows "run_final bp sh w cfg evs =
     (Returns (), evs @ [Print_using_char_height (max_char_height cfg), Print_building_chars,
        Scaling_division (max_char_height cfg) (maxheight_of sh), Print_packing_atlas, Print_packing_failed])"
  using assms by (simp add: run_final_def Let_def build_charset_log_def)

lemma write_description_nonempty:
  "charinfos \<noteq> [] \<Longrightarrow> \<exists>d. write_description charinfos cfg = Returns d"
  by (cases charinfos) (simp_all add: write_description_def Let_def)

lemma run_final_packed:
  assumes "fst (fst (bp w cfg True))" "snd (fst (bp w cfg True)) \<noteq> []"
  shows "run_final bp sh w cfg evs =
     (Returns (), evs @ [Print_using_char_height (max_char_height cfg), Print_building_chars,
        Scaling_division (max_char_height cfg) (maxheight_of sh), Print_packing_atlas,
        Open_description_file, Write_description_file, Write_image_png, Write_image_c])"
proof -
  from write_description_nonempty [OF assms(2)] obtain d where
    "write_description (snd (fst (bp w cfg True))) cfg = Returns d" by blast
  then show ?thesis using assms(1) by (simp add: run_final_def Let_def build_charset_log_def)
qed

lemma demo_phase_fixed:
  "auto_height_phase bp sh w (demo_settings t h False sp) = Some (demo_settings t h False sp, w, [])"
  by (simp add: auto_height_phase_def demo_settings_def)




section \<open>The exit status of main\<close>

lemma main_exit_zero: "main parsed ft font bp sh w = Some (Returns c, evs) \<Longrightarrow> c = 0"
  by (auto simp: main_def split: parse_result.splits if_splits option.splits outcome.splits prod.splits)

text \<open>
  Claim C10, as amended. Whenever \<^verbatim>\<open>main\<close> returns, it returns 0. When FreeType cannot be
  initialized it returns 0 and prints nothing at all; when the font cannot be opened it
  returns 0 after printing \<^verbatim>\<open>"Could not open font"\<close>; when the packing of the final run fails
  it returns 0 after printing \<^verbatim>\<open>"error: packing atlas failed."\<close> as its last line.
\<close>

theorem main_returns_zero:
  "(main parsed ft font bp sh w = Some (Returns c, evs) \<longrightarrow> c = 0)
   \<and> main (Parsed cfg) False font bp sh w = Some (Returns 0, [])
   \<and> main (Parsed cfg) True False bp sh w = Some (Returns 0, [Print_could_not_open_font (font_file_name cfg)])
   \<and> (auto_height_phase bp sh w cfg = Some (cfgc, wc, evsc) \<and> \<not> fst (fst (bp wc cfgc True)) \<longrightarrow>
        (\<exists>evs'. main (Parsed cfg) True True bp sh w = Some (Returns 0, evs' @ [Print_packing_failed])))"
proof (intro conjI impI)
  show "c = 0" if "main parsed ft font bp sh w = Some (Returns c, evs)"
    using that by (rule main_exit_zero)
  show "main (Parsed cfg) False font bp sh w = Some (Returns 0, [])" by (simp add: main_def)
  show "main (Parsed cfg) True False bp sh w = Some (Returns 0, [Print_could_not_open_font (font_file_name cfg)])"
    by (simp add: main_def)
  show "\<exists>evs'. main (Parsed cfg) True True bp sh w = Some (Returns 0, evs' @ [Print_packing_failed])"
    if "auto_height_phase bp sh w cfg = Some (cfgc, wc, evsc) \<and> \<not> fst (fst (bp wc cfgc True))"
  proof -
    from that have p: "auto_height_phase bp sh w cfg = Some (cfgc, wc, evsc)"
      and f: "\<not> fst (fst (bp wc cfgc True))" by simp_all
    have "run bp sh w cfg = Some (Returns (), (evsc @ [Print_using_char_height (max_char_height cfgc), Print_building_chars,
        Scaling_division (max_char_height cfgc) (maxheight_of sh), Print_packing_atlas]) @ [Print_packing_failed])"
      by (simp add: run_def p run_final_failed [of bp wc cfgc, OF f])
    then show ?thesis by (simp add: main_def)
  qed
qed

text \<open>
  The theorem at a texture of height 4 with char height 32, where the packer fails.
\<close>

theorem main_returns_zero_witness:
  "main (Parsed (demo_settings 4 32 False False)) True True (fits_up_to 3) [] ()
     = Some (Returns 0, [Print_using_char_height 32, Print_building_chars, Scaling_division 32 0,
          Print_packing_atlas, Print_packing_failed])
   \<and> auto_height_phase (fits_up_to 3) [] () (demo_settings 4 32 False False)
      = Some (demo_settings 4 32 False False, (), [])
   \<and> \<not> fst (fst (fits_up_to 3 () (demo_settings 4 32 False False) True))
   \<and> (\<exists>evs'. main (Parsed (demo_settings 4 32 False False)) True True (fits_up_to 3) [] ()
          = Some (Returns 0, evs' @ [Print_packing_failed]))"
proof -
  have m: "main (Parsed (demo_settings 4 32 False False)) True True (fits_up_to 3) [] ()
     = Some (Returns 0, [Print_using_char_height 32, Print_building_chars, Scaling_division 32 0,
          Print_packing_atlas, Print_packing_failed])"
    by (simp add: main_def run_def auto_height_phase_def run_final_def fits_up_to_def Let_def
        build_charset_log_def maxheight_of_def demo_settings_def)
  have pa: "auto_height_phase (fits_up_to 3) [] () (demo_settings 4 32 False False)
      = Some (demo_settings 4 32 False False, (), [])" by (rule demo_phase_fixed)
  have a: "\<not> fst (fst (fits_up_to 3 () (demo_settings 4 32 False False) True))"
    by (simp add: fits_up_to_def demo_settings_def)
  from main_returns_zero [where bp = "fits_up_to 3" and sh = "[]" and w = "()"
      and cfg = "demo_settings 4 32 False False" and cfgc = "demo_settings 4 32 False False"
      and wc = "()" and evsc = "[]"] pa a
  have r: "\<exists>evs'. main (Parsed (demo_settings 4 32 False False)) True True (fits_up_to 3) [] ()
          = Some (Returns 0, evs' @ [Print_packing_failed])" by blast
  show ?thesis by (intro conjI) (rule m pa a r)+
qed

text \<open>
  Claim C10 as stated fails: when \<^verbatim>\<open>initializeFreetype\<close> returns no handle, \<^verbatim>\<open>main\<close> prints no
  message; the \<^verbatim>\<open>if (ft)\<close> has no else branch.
\<close>

theorem freetype_failure_prints_nothing:
  "main (Parsed (demo_settings 2048 32 False False)) False True (fits_up_to 3) [] () = Some (Returns 0, [])"
  by (simp add: main_def)

section \<open>The divisor of the scale factor\<close>

lemma foldl_std_max_zero:
  assumes "0 \<le> m"
  shows "0 \<le> foldl (\<lambda>maxheight ch. std_max (bbox_height ch) maxheight) m charinfos
     \<and> (foldl (\<lambda>maxheight ch. std_max (bbox_height ch) maxheight) m charinfos = 0
          \<longleftrightarrow> m = 0 \<and> (\<forall>ch\<in>set charinfos. bbox_height ch \<le> 0))"
  using assms
proof (induction charinfos arbitrary: m)
  case Nil
  then show ?case by simp
next
  case (Cons ch charinfos)
  have "0 \<le> std_max (bbox_height ch) m" using Cons.prems by (simp add: std_max_def)
  from Cons.IH [OF this] show ?case using Cons.prems
    by (auto simp: std_max_def split: if_splits)
qed

lemma loop_probes:
  assumes "auto_height_loop bp sh w cfg s evs = Some y"
  shows "\<exists>hs. snd (snd (snd y))
            = evs @ concat (map (\<lambda>h. [Print_trying h, Scaling_division h (maxheight_of sh), Print_packing_atlas]) hs)
          \<and> (hs = [] \<longleftrightarrow> range_first s = range_second s) \<and> (hs \<noteq> [] \<longrightarrow> hd hs = range_second s)"
  using assms
proof (induct rule: auto_height_loop.raw_induct [rotated 1, consumes 1, case_names 1])
  case (1 loop bp sh w cfg s evs y)
  show ?case
  proof (cases "range_first s = range_second s")
    case True
    with 1(2) have "y = (cfg, s, w, evs)" by simp
    then show ?thesis using True by (intro exI [of _ "[]"]) simp
  next
    case False
    let ?cfg1 = "cfg\<lparr>max_char_height := range_second s\<rparr>"
    let ?r = "bp w ?cfg1 False"
    let ?evs1 = "evs @ Print_trying (range_second s) # build_charset_log sh ?cfg1 @ [Print_packing_atlas]"
    from 1(2) False have call: "loop bp sh (snd ?r) ?cfg1 (auto_height_step (fst (fst ?r)) s) ?evs1 = Some y"
      by (simp add: Let_def)
    from 1(1) [OF call] obtain hs where
      hs: "snd (snd (snd y))
            = ?evs1 @ concat (map (\<lambda>h. [Print_trying h, Scaling_division h (maxheight_of sh), Print_packing_atlas]) hs)"
      by blast
    have "snd (snd (snd y))
            = evs @ concat (map (\<lambda>h. [Print_trying h, Scaling_division h (maxheight_of sh), Print_packing_atlas])
                (range_second s # hs))"
      unfolding hs by (simp add: build_charset_log_def)
    then show ?thesis using False by (intro exI [of _ "range_second s # hs"]) simp
  qed
qed

lemma run_final_divides:
  "\<exists>tl. snd (run_final bp sh w cfg evs)
       = evs @ [Print_using_char_height (max_char_height cfg), Print_building_chars,
                Scaling_division (max_char_height cfg) (maxheight_of sh), Print_packing_atlas] @ tl
     \<and> (\<forall>h d. Scaling_division h d \<notin> set tl) \<and> (\<forall>h. Print_trying h \<notin> set tl)"
  by (simp add: run_final_def Let_def build_charset_log_def split: outcome.splits)

text \<open>
  Claim C8, as amended. No call of \<^verbatim>\<open>build_charset\<close> is guarded. The divisor \<^verbatim>\<open>maxheight\<close> is
  zero exactly when no record has a positive bounding-box height (so for every empty
  record set). Every iteration of the search prints the height it tries and executes the
  division \<^verbatim>\<open>double(cfg.max_char_height) / maxheight\<close> at that height with this divisor,
  whatever it is; the final run executes it at the committed height. So what a run that
  returns has printed and done is: for each probe in turn the height tried, the division
  and the packing; then the height used, the division and the packing of the final run;
  then no further division and no further probe. With automatic sizing and a requested
  height other than 0 the first probe is at the requested height; otherwise there is no
  probe.
\<close>

theorem scaling_divisor_unguarded:
  "(maxheight_of shapes = 0 \<longleftrightarrow> (\<forall>ch\<in>set shapes. bbox_height ch \<le> 0))
   \<and> (range_first s \<noteq> range_second s \<longrightarrow>
        auto_height_loop bp shapes w cfg s evs0
        = auto_height_loop bp shapes (snd (bp w (cfg\<lparr>max_char_height := range_second s\<rparr>) False))
            (cfg\<lparr>max_char_height := range_second s\<rparr>)
            (auto_height_step (fst (fst (bp w (cfg\<lparr>max_char_height := range_second s\<rparr>) False))) s)
            (evs0 @ [Print_trying (range_second s),
                     Scaling_division (range_second s) (maxheight_of shapes), Print_packing_atlas]))
   \<and> (\<exists>tl. snd (run_final bp shapes w cfg evs0)
           = evs0 @ [Print_using_char_height (max_char_height cfg), Print_building_chars,
                     Scaling_division (max_char_height cfg) (maxheight_of shapes), Print_packing_atlas] @ tl
         \<and> (\<forall>h d. Scaling_division h d \<notin> set tl))
   \<and> (run bp shapes w cfg = Some (r, evs) \<longrightarrow>
        (\<exists>hs hf tl. evs = concat (map (\<lambda>h. [Print_trying h, Scaling_division h (maxheight_of shapes),
                                               Print_packing_atlas]) hs)
                       @ [Print_using_char_height hf, Print_building_chars,
                          Scaling_division hf (maxheight_of shapes), Print_packing_atlas] @ tl
           \<and> (\<forall>h d. Scaling_division h d \<notin> set tl) \<and> (\<forall>h. Print_trying h \<notin> set tl)
           \<and> (hs = [] \<longleftrightarrow> \<not> auto_height cfg \<or> max_char_height cfg = 0)
           \<and> (hs \<noteq> [] \<longrightarrow> hd hs = max_char_height cfg)))"
proof (intro conjI impI)
  show "maxheight_of shapes = 0 \<longleftrightarrow> (\<forall>ch\<in>set shapes. bbox_height ch \<le> 0)"
    using foldl_std_max_zero [of 0 shapes] by (simp add: maxheight_of_def)
next
  assume "range_first s \<noteq> range_second s"
  then show "auto_height_loop bp shapes w cfg s evs0
        = auto_height_loop bp shapes (snd (bp w (cfg\<lparr>max_char_height := range_second s\<rparr>) False))
            (cfg\<lparr>max_char_height := range_second s\<rparr>)
            (auto_height_step (fst (fst (bp w (cfg\<lparr>max_char_height := range_second s\<rparr>) False))) s)
            (evs0 @ [Print_trying (range_second s),
                     Scaling_division (range_second s) (maxheight_of shapes), Print_packing_atlas])"
    by (subst auto_height_loop.simps) (simp add: Let_def build_charset_log_def)
next
  from run_final_divides [of bp shapes w cfg evs0]
  show "\<exists>tl. snd (run_final bp shapes w cfg evs0)
           = evs0 @ [Print_using_char_height (max_char_height cfg), Print_building_chars,
                     Scaling_division (max_char_height cfg) (maxheight_of shapes), Print_packing_atlas] @ tl
         \<and> (\<forall>h d. Scaling_division h d \<notin> set tl)" by blast
next
  let ?probe = "\<lambda>h. [Print_trying h, Scaling_division h (maxheight_of shapes), Print_packing_atlas]"
  assume "run bp shapes w cfg = Some (r, evs)"
  then obtain cfg1 w1 evs1 where p: "auto_height_phase bp shapes w cfg = Some (cfg1, w1, evs1)"
    and f: "run_final bp shapes w1 cfg1 evs1 = (r, evs)"
    by (auto simp: run_def split: option.splits)
  have "\<exists>hs. evs1 = concat (map ?probe hs)
          \<and> (hs = [] \<longleftrightarrow> \<not> auto_height cfg \<or> max_char_height cfg = 0)
          \<and> (hs \<noteq> [] \<longrightarrow> hd hs = max_char_height cfg)"
  proof (cases "auto_height cfg")
    case True
    with p obtain cfg0 s0 where "auto_height_loop bp shapes w cfg (initial_search cfg) [] = Some (cfg0, s0, w1, evs1)"
      by (auto simp: auto_height_phase_def split: option.splits)
    from loop_probes [OF this] obtain hs where "evs1 = concat (map ?probe hs)"
      and "hs = [] \<longleftrightarrow> range_first (initial_search cfg) = range_second (initial_search cfg)"
      and "hs \<noteq> [] \<longrightarrow> hd hs = range_second (initial_search cfg)"
      by auto
    then show ?thesis using True by (intro exI [of _ hs]) (auto simp: initial_search_def)
  next
    case False
    with p have "evs1 = []" by (simp add: auto_height_phase_def)
    then show ?thesis using False by (intro exI [of _ "[]"]) simp
  qed
  then obtain hs where hs: "evs1 = concat (map ?probe hs)"
    and e: "hs = [] \<longleftrightarrow> \<not> auto_height cfg \<or> max_char_height cfg = 0"
    and h: "hs \<noteq> [] \<longrightarrow> hd hs = max_char_height cfg" by blast
  from run_final_divides [of bp shapes w1 cfg1 evs1] f obtain tl where
    evs: "evs = evs1 @ [Print_using_char_height (max_char_height cfg1), Print_building_chars,
                Scaling_division (max_char_height cfg1) (maxheight_of shapes), Print_packing_atlas] @ tl"
    and tl: "\<forall>h d. Scaling_division h d \<notin> set tl" "\<forall>h. Print_trying h \<notin> set tl"
    by auto
  show "\<exists>hs hf tl. evs = concat (map ?probe hs)
                       @ [Print_using_char_height hf, Print_building_chars,
                          Scaling_division hf (maxheight_of shapes), Print_packing_atlas] @ tl
           \<and> (\<forall>h d. Scaling_division h d \<notin> set tl) \<and> (\<forall>h. Print_trying h \<notin> set tl)
           \<and> (hs = [] \<longleftrightarrow> \<not> auto_height cfg \<or> max_char_height cfg = 0)
           \<and> (hs \<noteq> [] \<longrightarrow> hd hs = max_char_height cfg)"
    using evs tl e h unfolding hs by blast
qed

text \<open>
  The theorem at a texture of height 4 and a requested height 2 with automatic sizing, one
  record of height 20 and a packer that fits heights up to 3: the divisor is 20, the
  probes at 2, 4 and 3 and the final run at 3 each execute the division.
\<close>

theorem scaling_divisor_unguarded_witness:
  "(maxheight_of [demo_glyph 65] = 0 \<longleftrightarrow> bbox_height (demo_glyph 65) \<le> 0)
   \<and> maxheight_of [demo_glyph 65] = 20
   \<and> range_first (initial_search (demo_settings 4 2 True False)) \<noteq> range_second (initial_search (demo_settings 4 2 True False))
   \<and> auto_height_loop (packs_up_to 3 [demo_glyph 65]) [demo_glyph 65] () (demo_settings 4 2 True False)
         (initial_search (demo_settings 4 2 True False)) []
       = auto_height_loop (packs_up_to 3 [demo_glyph 65]) [demo_glyph 65] ()
           ((demo_settings 4 2 True False)\<lparr>max_char_height := 2\<rparr>)
           (auto_height_step True (initial_search (demo_settings 4 2 True False)))
           [Print_trying 2, Scaling_division 2 20, Print_packing_atlas]
   \<and> run (packs_up_to 3 [demo_glyph 65]) [demo_glyph 65] () (demo_settings 4 2 True False)
       = Some (Returns (),
           [Print_trying 2, Scaling_division 2 20, Print_packing_atlas,
            Print_trying 4, Scaling_division 4 20, Print_packing_atlas,
            Print_trying 3, Scaling_division 3 20, Print_packing_atlas,
            Print_using_char_height 3, Print_building_chars, Scaling_division 3 20, Print_packing_atlas,
            Open_description_file, Write_description_file, Write_image_png, Write_image_c])
   \<and> (\<exists>hs hf tl.
          [Print_trying 2, Scaling_division 2 20, Print_packing_atlas,
           Print_trying 4, Scaling_division 4 20, Print_packing_atlas,
           Print_trying 3, Scaling_division 3 20, Print_packing_atlas,
           Print_using_char_height 3, Print_building_chars, Scaling_division 3 20, Print_packing_atlas,
           Open_description_file, Write_description_file, Write_image_png, Write_image_c]
          = concat (map (\<lambda>h. [Print_trying h, Scaling_division h 20, Print_packing_atlas]) hs)
              @ [Print_using_char_height hf, Print_building_chars, Scaling_division hf 20, Print_packing_atlas] @ tl
          \<and> hs \<noteq> [] \<and> hd hs = 2)"
proof -
  let ?c = "demo_settings 4 2 True False"
  let ?bp = "packs_up_to 3 [demo_glyph 65]"
  let ?evs = "[Print_trying 2, Scaling_division 2 20, Print_packing_atlas,
            Print_trying 4, Scaling_division 4 20, Print_packing_atlas,
            Print_trying 3, Scaling_division 3 20, Print_packing_atlas,
            Print_using_char_height 3, Print_building_chars, Scaling_division 3 20, Print_packing_atlas,
            Open_description_file, Write_description_file, Write_image_png, Write_image_c]"
  have mh: "maxheight_of [demo_glyph 65] = 20" by (simp add: maxheight_of_def std_max_def demo_glyph_def)
  have ne: "range_first (initial_search ?c) \<noteq> range_second (initial_search ?c)"
    by (simp add: initial_search_def demo_settings_def)
  have ph: "auto_height_phase ?bp [demo_glyph 65] () ?c
      = Some (?c\<lparr>max_char_height := 3\<rparr>, (),
           [Print_trying 2, Scaling_division 2 20, Print_packing_atlas,
            Print_trying 4, Scaling_division 4 20, Print_packing_atlas,
            Print_trying 3, Scaling_division 3 20, Print_packing_atlas])"
    by (simp add: auto_height_phase_def initial_search_def demo_settings_def packs_up_to_def
      auto_height_loop.simps Let_def auto_height_step_def pack_succeeded_def pack_failed_def
      build_charset_log_def mh)
  have b: "fst (fst (?bp () (?c\<lparr>max_char_height := 3\<rparr>) True))"
    and c: "snd (fst (?bp () (?c\<lparr>max_char_height := 3\<rparr>) True)) \<noteq> []"
    by (simp_all add: packs_up_to_def)
  have r: "run ?bp [demo_glyph 65] () ?c = Some (Returns (), ?evs)"
    by (simp add: run_def ph run_final_packed [of ?bp "()" "?c\<lparr>max_char_height := 3\<rparr>", OF b c] mh)
  note t = scaling_divisor_unguarded [where shapes = "[demo_glyph 65]" and bp = ?bp and w = "()"
      and cfg = ?c and r = "Returns ()" and evs = ?evs and s = "initial_search ?c" and ?evs0.0 = "[]"]
  from t have c1: "maxheight_of [demo_glyph 65] = 0 \<longleftrightarrow> bbox_height (demo_glyph 65) \<le> 0"
    by simp
  have st: "snd (?bp () (?c\<lparr>max_char_height := range_second (initial_search ?c)\<rparr>) False) = ()"
    "?c\<lparr>max_char_height := range_second (initial_search ?c)\<rparr> = ?c\<lparr>max_char_height := 2\<rparr>"
    "fst (fst (?bp () (?c\<lparr>max_char_height := range_second (initial_search ?c)\<rparr>) False)) = True"
    "range_second (initial_search ?c) = 2"
    by (simp_all add: packs_up_to_def initial_search_def demo_settings_def)
  have st2: "fst (fst (?bp () (?c\<lparr>max_char_height := 2\<rparr>) False))"
    by (simp add: packs_up_to_def)
  from t ne st2 have c2: "auto_height_loop ?bp [demo_glyph 65] () ?c (initial_search ?c) []
       = auto_height_loop ?bp [demo_glyph 65] () (?c\<lparr>max_char_height := 2\<rparr>)
           (auto_height_step True (initial_search ?c))
           [Print_trying 2, Scaling_division 2 20, Print_packing_atlas]"
    unfolding st mh by simp
  from t r obtain hs hf tl where
    e: "?evs = concat (map (\<lambda>h. [Print_trying h, Scaling_division h (maxheight_of [demo_glyph 65]), Print_packing_atlas]) hs)
              @ [Print_using_char_height hf, Print_building_chars,
                 Scaling_division hf (maxheight_of [demo_glyph 65]), Print_packing_atlas] @ tl"
    and n: "hs = [] \<longleftrightarrow> \<not> auto_height ?c \<or> max_char_height ?c = 0"
    and h: "hs \<noteq> [] \<longrightarrow> hd hs = max_char_height ?c"
    by blast
  from n have n': "hs \<noteq> []" by (simp add: demo_settings_def)
  with h have h': "hd hs = 2" by (simp add: demo_settings_def)
  from e n' h' have c3: "\<exists>hs hf tl. ?evs
          = concat (map (\<lambda>h. [Print_trying h, Scaling_division h 20, Print_packing_atlas]) hs)
              @ [Print_using_char_height hf, Print_building_chars, Scaling_division hf 20, Print_packing_atlas] @ tl
          \<and> hs \<noteq> [] \<and> hd hs = 2"
    unfolding mh by blast
  show ?thesis by (intro conjI) (rule c1 mh ne c2 r c3)+
qed

text \<open>
  Claim C8 as stated fails: with no record (no codepoint of the ranges has a glyph), the
  run at char height 32 executes the division 32 / 0.
\<close>

theorem scaling_divides_by_zero_on_empty_set:
  "run (fits_up_to 3) [] () (demo_settings 4 32 False False)
     = Some (Returns (), [Print_using_char_height 32, Print_building_chars, Scaling_division 32 0,
          Print_packing_atlas, Print_packing_failed])"
  by (simp add: run_def auto_height_phase_def run_final_def fits_up_to_def Let_def
        build_charset_log_def maxheight_of_def demo_settings_def)

section \<open>The bytes of the image\<close>

lemma concat3_length: "length (concat (map (\<lambda>x. [f x, g x, h x]) [0..<w])) = 3 * w"
  by (induction w) simp_all

lemma concat3_nth:
  assumes "x < w"
  shows "concat (map (\<lambda>x. [f x, g x, h x]) [0..<w]) ! (3 * x) = f x"
    and "concat (map (\<lambda>x. [f x, g x, h x]) [0..<w]) ! (3 * x + 1) = g x"
    and "concat (map (\<lambda>x. [f x, g x, h x]) [0..<w]) ! (3 * x + 2) = h x"
  using assms
proof (induction w)
  case 0
  { case 1 then show ?case by simp }
  { case 2 then show ?case by simp }
  { case 3 then show ?case by simp }
next
  case (Suc w)
  { case 1 then show ?case using Suc.IH(1)
      by (cases "x < w") (auto simp: nth_append concat3_length less_Suc_eq) }
  { case 2 then show ?case using Suc.IH(2)
      by (cases "x < w") (auto simp: nth_append concat3_length less_Suc_eq) }
  { case 3 then show ?case using Suc.IH(3)
      by (cases "x < w") (auto simp: nth_append concat3_length less_Suc_eq) }
qed

lemma msdf_row:
  "(\<lambda>x. case atlas x y of (r, g, b) \<Rightarrow> [channel_byte r, channel_byte g, channel_byte b])
     = (\<lambda>x. [channel_byte (fst (atlas x y)), channel_byte (fst (snd (atlas x y))), channel_byte (snd (snd (atlas x y)))])"
  by (simp add: fun_eq_iff split: prod.splits)

lemma channel_byte_unit:
  assumes "0 \<le> v" "v \<le> 1"
  shows "channel_byte v = min 255 \<lfloor>v * 256\<rfloor>" "0 \<le> channel_byte v" "channel_byte v \<le> 255"
proof -
  define n where "n = \<lfloor>v * 256\<rfloor>"
  have "0 \<le> v * 256" using assms by simp
  then have f: "0 \<le> n" unfolding n_def by simp
  have "int_of_float (v * 256) = n" using \<open>0 \<le> v * 256\<close> by (simp add: int_of_float_def n_def)
  then have c: "channel_byte v = clamp n 255" by (simp add: channel_byte_def)
  show "channel_byte v = min 255 \<lfloor>v * 256\<rfloor>"
    unfolding c n_def [symmetric] using f by (simp add: clamp_def min_def)
  show "0 \<le> channel_byte v" "channel_byte v \<le> 255"
    unfolding c using f by (simp_all add: clamp_def)
qed

text \<open>
  Claim C5, as amended. The number written for pixel \<open>(x, y)\<close> is \<open>channel_byte\<close> of the
  channel value: in \<^verbatim>\<open>msdf\<close> mode the three numbers at \<open>3 * x\<close>, \<open>3 * x + 1\<close>, \<open>3 * x + 2\<close> of
  row \<open>y\<close> come from the red, green and blue value, in the two single-channel modes the
  number at \<open>x\<close> comes from the one value. For a value \<open>v\<close> in [0,1] this byte is
  \<open>v * 256\<close> with its fraction cut off (not rounded), and 255 for \<open>v = 1\<close>; it lies in [0,255].
\<close>

theorem pixel_bytes_truncate:
  assumes "x < unat (tex_dims_width cfg)" "y < unat (tex_dims_height cfg)"
  shows "(mode cfg = msdf \<longrightarrow>
            write_image_pixels cfg msdf_atlas sdf_atlas ! y ! (3 * x) = channel_byte (fst (msdf_atlas x y))
          \<and> write_image_pixels cfg msdf_atlas sdf_atlas ! y ! (3 * x + 1) = channel_byte (fst (snd (msdf_atlas x y)))
          \<and> write_image_pixels cfg msdf_atlas sdf_atlas ! y ! (3 * x + 2) = channel_byte (snd (snd (msdf_atlas x y))))
       \<and> (mode cfg \<noteq> msdf \<longrightarrow>
            write_image_pixels cfg msdf_atlas sdf_atlas ! y ! x = channel_byte (sdf_atlas x y))
       \<and> (0 \<le> v \<and> v \<le> 1 \<longrightarrow>
            channel_byte v = min 255 \<lfloor>v * 256\<rfloor> \<and> 0 \<le> channel_byte v \<and> channel_byte v \<le> 255)"
proof (intro conjI impI)
  assume m: "mode cfg = msdf"
  have row: "write_image_pixels cfg msdf_atlas sdf_atlas ! y
     = concat (map (\<lambda>x. [channel_byte (fst (msdf_atlas x y)), channel_byte (fst (snd (msdf_atlas x y))),
          channel_byte (snd (snd (msdf_atlas x y)))]) [0..<unat (tex_dims_width cfg)])"
    using assms(2) by (simp add: write_image_pixels_def Let_def m msdf_row)
  show "write_image_pixels cfg msdf_atlas sdf_atlas ! y ! (3 * x) = channel_byte (fst (msdf_atlas x y))"
    unfolding row by (rule concat3_nth(1) [OF assms(1)])
  show "write_image_pixels cfg msdf_atlas sdf_atlas ! y ! (3 * x + 1) = channel_byte (fst (snd (msdf_atlas x y)))"
    unfolding row by (rule concat3_nth(2) [OF assms(1)])
  show "write_image_pixels cfg msdf_atlas sdf_atlas ! y ! (3 * x + 2) = channel_byte (snd (snd (msdf_atlas x y)))"
    unfolding row by (rule concat3_nth(3) [OF assms(1)])
next
  assume "mode cfg \<noteq> msdf"
  then show "write_image_pixels cfg msdf_atlas sdf_atlas ! y ! x = channel_byte (sdf_atlas x y)"
    using assms by (cases "mode cfg") (simp_all add: write_image_pixels_def Let_def)
next
  assume "0 \<le> v \<and> v \<le> 1"
  then have v: "0 \<le> v" "v \<le> 1" by simp_all
  show "channel_byte v = min 255 \<lfloor>v * 256\<rfloor>" by (rule channel_byte_unit(1) [OF v])
  show "0 \<le> channel_byte v" by (rule channel_byte_unit(2) [OF v])
  show "channel_byte v \<le> 255" by (rule channel_byte_unit(3) [OF v])
qed

text \<open>
  The theorem at the pixel (0, 0) of an atlas whose every pixel is (3/1024, 1/2, 1): the
  three bytes are 0, 128 and 255.
\<close>

theorem pixel_bytes_truncate_witness:
  "0 < unat (tex_dims_width (demo_settings 4 32 False False))
   \<and> 0 < unat (tex_dims_height (demo_settings 4 32 False False))
   \<and> mode (demo_settings 4 32 False False) = msdf
   \<and> (0::real) \<le> 3 / 1024 \<and> (3::real) / 1024 \<le> 1
   \<and> write_image_pixels (demo_settings 4 32 False False) (\<lambda>x y. (3 / 1024, 1 / 2, 1)) (\<lambda>x y. 0) ! 0 ! (3 * 0) = 0
   \<and> write_image_pixels (demo_settings 4 32 False False) (\<lambda>x y. (3 / 1024, 1 / 2, 1)) (\<lambda>x y. 0) ! 0 ! (3 * 0 + 1) = 128
   \<and> write_image_pixels (demo_settings 4 32 False False) (\<lambda>x y. (3 / 1024, 1 / 2, 1)) (\<lambda>x y. 0) ! 0 ! (3 * 0 + 2) = 255
   \<and> channel_byte (3 / 1024) = min 255 \<lfloor>(3::real) / 1024 * 256\<rfloor>"
proof -
  have a: "0 < unat (tex_dims_width (demo_settings 4 32 False False))"
    and b: "0 < unat (tex_dims_height (demo_settings 4 32 False False))"
    and m: "mode (demo_settings 4 32 False False) = msdf"
    by (simp_all add: demo_settings_def)
  have v: "(0::real) \<le> 3 / 1024" "(3::real) / 1024 \<le> 1" by simp_all
  have c: "channel_byte (3 / 1024) = 0" "channel_byte (1 / 2) = 128" "channel_byte 1 = 255"
    by (simp_all add: channel_byte_def clamp_def int_of_float_def)
  note t = pixel_bytes_truncate [OF a b, of "\<lambda>x y. (3 / 1024, 1 / 2, 1)" "\<lambda>x y. 0" "3 / 1024"]
  from t m c have p0: "write_image_pixels (demo_settings 4 32 False False) (\<lambda>x y. (3 / 1024, 1 / 2, 1)) (\<lambda>x y. 0) ! 0 ! (3 * 0) = 0"
    and p1: "write_image_pixels (demo_settings 4 32 False False) (\<lambda>x y. (3 / 1024, 1 / 2, 1)) (\<lambda>x y. 0) ! 0 ! (3 * 0 + 1) = 128"
    and p2: "write_image_pixels (demo_settings 4 32 False False) (\<lambda>x y. (3 / 1024, 1 / 2, 1)) (\<lambda>x y. 0) ! 0 ! (3 * 0 + 2) = 255"
    by simp_all
  from t v have p3: "channel_byte (3 / 1024) = min 255 \<lfloor>(3::real) / 1024 * 256\<rfloor>" by blast
  show ?thesis by (intro conjI) (rule a b m v p0 p1 p2 p3)+
qed

text \<open>
  Claim C5 as stated fails: for the channel value 3/1024 (a \<^verbatim>\<open>float\<close>), \<open>v * 256 = 0.75\<close>; the
  program writes 0, and rounding would give 1.
\<close>

theorem channel_byte_is_not_rounded:
  "channel_byte (3 / 1024) = 0 \<and> spec_channel_byte (3 / 1024) = 1"
  by (simp add: channel_byte_def spec_channel_byte_def clamp_def int_of_float_def round_def)

section \<open>The count written after the glyph table\<close>

lemma fill_gap_replicate: "fill_gap last_written cp = replicate (cp - last_written) Placeholder"
proof (induction last_written cp rule: fill_gap.induct)
  case (1 last_written cp)
  show ?case
  proof (cases "last_written < cp")
    case True
    then have "cp - last_written = Suc (cp - Suc last_written)" by simp
    with 1 True show ?thesis by (subst fill_gap.simps) simp
  next
    case False
    then show ?thesis by (subst fill_gap.simps) simp
  qed
qed

text \<open>
  Claim C4 fails on the program. For the single record of codepoint 65, without spans
  the glyph table has 66 lines (65 placeholders and the record) and with spans it has
  one line; in both cases \<^verbatim>\<open>bitmap_chars_count\<close> is written as 67, which is
  \<^verbatim>\<open>last_written + 1\<close> with \<^verbatim>\<open>last_written\<close> already one past the last codepoint.
\<close>

theorem chars_count_off_by_one:
  "write_description [demo_glyph 65] (demo_settings 256 32 False False)
     = Returns \<lparr>font_codepoint_spans = None,
                font_codepoint_infos = replicate 65 Placeholder @ [Glyph_entry (demo_glyph 65)],
                bitmap_chars_count = 67\<rparr>
   \<and> write_description [demo_glyph 65] (demo_settings 256 32 False True)
     = Returns \<lparr>font_codepoint_spans = Some [\<lparr>bs_start = 65, bs_end = 66, bs_cumulative = 0\<rparr>],
                font_codepoint_infos = [Glyph_entry (demo_glyph 65)],
                bitmap_chars_count = 67\<rparr>"
proof -
  have cp: "codepoint (demo_glyph 65) = 65" by (simp add: demo_glyph_def)
  have e: "span_end_from [demo_glyph 65] (Suc 0) = Suc 0" by (subst span_end_from.simps) simp
  have s: "write_spans [demo_glyph 65] 0 0 = [\<lparr>bs_start = 65, bs_end = 66, bs_cumulative = 0\<rparr>]"
    by (subst write_spans.simps, simp add: e cp unsigned_of_int_def Let_def)
       (subst write_spans.simps, simp)
  show ?thesis
    by (simp add: write_description_def Let_def demo_settings_def s fill_gap_replicate cp size_t_of_int_def)
qed

section \<open>The glyph table and the span table\<close>

lemma size_t_of_int_nat: "0 \<le> i \<Longrightarrow> i < 2 ^ 63 \<Longrightarrow> size_t_of_int i = nat i"
  by (simp add: size_t_of_int_def)

lemma write_glyphs_dense:
  assumes "sorted_wrt (<) (map codepoint cs)" "cs \<noteq> []"
    and "\<forall>ch\<in>set cs. int lw \<le> codepoint ch \<and> codepoint ch < 2 ^ 62"
  shows "length (fst (write_glyphs False lw cs)) = nat (codepoint (last cs)) + 1 - lw
       \<and> snd (write_glyphs False lw cs) = nat (codepoint (last cs)) + 1
       \<and> (\<forall>ch\<in>set cs. fst (write_glyphs False lw cs) ! (nat (codepoint ch) - lw) = Glyph_entry ch)
       \<and> (\<forall>k. lw \<le> k \<and> k \<le> nat (codepoint (last cs)) \<and> int k \<notin> codepoint ` set cs
             \<longrightarrow> fst (write_glyphs False lw cs) ! (k - lw) = Placeholder)"
  using assms
proof (induction cs arbitrary: lw)
  case Nil
  then show ?case by simp
next
  case (Cons info rest)
  let ?cp = "nat (codepoint info)"
  have cp0: "int lw \<le> codepoint info" and cpb: "codepoint info < 2 ^ 62" using Cons.prems(3) by simp_all
  then have nn: "0 \<le> codepoint info" by linarith
  have icp: "int ?cp = codepoint info" using nn by simp
  have lwcp: "lw \<le> ?cp" using cp0 by linarith
  have c1: "size_t_of_int (codepoint info) = ?cp" using nn cpb by (simp add: size_t_of_int_nat)
  have c2: "size_t_of_int (codepoint info + 1) = ?cp + 1" using nn cpb by (simp add: size_t_of_int_nat nat_add_distrib)
  let ?tail = "write_glyphs False (?cp + 1) rest"
  have es: "fst (write_glyphs False lw (info # rest)) = replicate (?cp - lw) Placeholder @ Glyph_entry info # fst ?tail"
    and lw': "snd (write_glyphs False lw (info # rest)) = snd ?tail"
    by (simp_all add: Let_def c1 c2 fill_gap_replicate)
  have at_cp: "fst (write_glyphs False lw (info # rest)) ! (?cp - lw) = Glyph_entry info"
    unfolding es by (simp add: nth_append)
  have below: "fst (write_glyphs False lw (info # rest)) ! (k - lw) = Placeholder" if "lw \<le> k" "k < ?cp" for k
    unfolding es using that by (simp add: nth_append)
  have above: "fst (write_glyphs False lw (info # rest)) ! (k - lw) = fst ?tail ! (k - (?cp + 1))" if "?cp + 1 \<le> k" for k
  proof -
    have "k - lw = length (replicate (?cp - lw) Placeholder) + Suc (k - (?cp + 1))"
      using that lwcp by simp
    then show ?thesis unfolding es by (simp only: nth_append_length_plus nth_Cons_Suc)
  qed
  have other: "k < ?cp \<or> ?cp + 1 \<le> k" if "int k \<noteq> codepoint info" for k
  proof -
    from that icp have "k \<noteq> ?cp" by auto
    then show ?thesis by arith
  qed
  show ?case
  proof (cases "rest = []")
    case True
    have t: "fst ?tail = []" "snd ?tail = ?cp + 1" using True by simp_all
    have g1: "length (fst (write_glyphs False lw (info # rest))) = nat (codepoint (last (info # rest))) + 1 - lw"
      unfolding es t using True lwcp by simp
    have g2: "snd (write_glyphs False lw (info # rest)) = nat (codepoint (last (info # rest))) + 1"
      unfolding lw' t using True by simp
    have g3: "fst (write_glyphs False lw (info # rest)) ! (nat (codepoint ch) - lw) = Glyph_entry ch"
      if "ch \<in> set (info # rest)" for ch
    proof -
      from that True have "ch = info" by simp
      then show ?thesis by (simp only: at_cp)
    qed
    have g4: "fst (write_glyphs False lw (info # rest)) ! (k - lw) = Placeholder"
      if "lw \<le> k \<and> k \<le> nat (codepoint (last (info # rest))) \<and> int k \<notin> codepoint ` set (info # rest)" for k
    proof -
      from that True have k1: "lw \<le> k" and k2: "k \<le> ?cp" and k3: "int k \<noteq> codepoint info" by simp_all
      from other [OF k3] k2 have "k < ?cp" by arith
      with k1 show ?thesis by (rule below)
    qed
    show ?thesis using g1 g2 g3 g4 by blast
  next
    case False
    have srt: "sorted_wrt (<) (map codepoint rest)" and gt: "\<forall>ch\<in>set rest. codepoint info < codepoint ch"
      using Cons.prems(1) by simp_all
    have gtn: "?cp + 1 \<le> nat (codepoint ch)" if "ch \<in> set rest" for ch
    proof -
      from gt that have "codepoint info < codepoint ch" by simp
      then have "int ?cp < codepoint ch" using icp by simp
      then show ?thesis by linarith
    qed
    have rng: "\<forall>ch\<in>set rest. int (?cp + 1) \<le> codepoint ch \<and> codepoint ch < 2 ^ 62"
    proof
      fix ch assume m: "ch \<in> set rest"
      from gt m have "codepoint info < codepoint ch" by simp
      then have "int (?cp + 1) \<le> codepoint ch" using icp by simp
      moreover have "codepoint ch < 2 ^ 62" using Cons.prems(3) m by simp
      ultimately show "int (?cp + 1) \<le> codepoint ch \<and> codepoint ch < 2 ^ 62" by simp
    qed
    note IH = Cons.IH [OF srt False rng]
    let ?last = "nat (codepoint (last rest))"
    have lastgt: "?cp + 1 \<le> ?last" using gtn [of "last rest"] False by simp
    have len: "length (fst ?tail) = ?last + 1 - (?cp + 1)" using IH by simp
    have l: "last (info # rest) = last rest" using False by simp
    have g1: "length (fst (write_glyphs False lw (info # rest))) = nat (codepoint (last (info # rest))) + 1 - lw"
      unfolding es l using len lwcp lastgt by simp arith
    have g2: "snd (write_glyphs False lw (info # rest)) = nat (codepoint (last (info # rest))) + 1"
      unfolding lw' l using IH by simp
    have g3: "fst (write_glyphs False lw (info # rest)) ! (nat (codepoint ch) - lw) = Glyph_entry ch"
      if "ch \<in> set (info # rest)" for ch
    proof (cases "ch = info")
      case True
      then show ?thesis by (simp only: at_cp)
    next
      case False
      with that have m: "ch \<in> set rest" by simp
      have "fst ?tail ! (nat (codepoint ch) - (?cp + 1)) = Glyph_entry ch" using IH m by simp
      then show ?thesis by (simp only: above [OF gtn [OF m]])
    qed
    have g4: "fst (write_glyphs False lw (info # rest)) ! (k - lw) = Placeholder"
      if "lw \<le> k \<and> k \<le> nat (codepoint (last (info # rest))) \<and> int k \<notin> codepoint ` set (info # rest)" for k
    proof -
      from that [unfolded l] have k1: "lw \<le> k" and k2: "k \<le> ?last" and k3: "int k \<noteq> codepoint info"
        and k4: "int k \<notin> codepoint ` set rest" by simp_all
      from other [OF k3] show ?thesis
      proof
        assume "k < ?cp"
        with k1 show ?thesis by (rule below)
      next
        assume a: "?cp + 1 \<le> k"
        have "fst ?tail ! (k - (?cp + 1)) = Placeholder" using IH a k2 k4 by simp
        then show ?thesis by (simp only: above [OF a])
      qed
    qed
    show ?thesis using g1 g2 g3 g4 by blast
  qed
qed

lemma last_sorted_Max:
  assumes "sorted (map f xs)" "xs \<noteq> []"
  shows "f (last xs) = Max (f ` set xs)"
proof (rule Max_eqI [symmetric])
  show "finite (f ` set xs)" by simp
  show "f (last xs) \<in> f ` set xs" using assms(2) by simp
  fix y assume "y \<in> f ` set xs"
  then obtain i where i: "i < length xs" "y = f (xs ! i)" by (auto simp: in_set_conv_nth)
  have "map f xs ! i \<le> map f xs ! (length xs - 1)"
    using assms i by (intro sorted_nth_mono) auto
  then show "y \<le> f (last xs)" using i assms(2) by (simp add: last_conv_nth)
qed

lemma write_glyphs_spans: "fst (write_glyphs True lw cs) = map Glyph_entry cs"
  by (induction cs arbitrary: lw) (simp_all add: Let_def)

lemma runs_maximal_Cons:
  "runs_maximal (a # sps) = ((sps \<noteq> [] \<longrightarrow> int (bs_end a) < bs_start (hd sps)) \<and> runs_maximal sps)"
  by (cases sps) simp_all

lemma spans_partition_increasing:
  "spans_partition off n sps \<Longrightarrow>
     sorted_wrt (<) (map bs_cumulative sps) \<and> (\<forall>sp\<in>set sps. off \<le> bs_cumulative sp)"
proof (induction sps arbitrary: off)
  case Nil
  then show ?case by simp
next
  case (Cons sp sps)
  from Cons.prems [unfolded spans_partition.simps]
  have c: "bs_cumulative sp = off" and p: "nat (bs_start sp) < bs_end sp"
    and r: "spans_partition (off + (bs_end sp - nat (bs_start sp))) n sps" by blast+
  from Cons.IH [OF r] have s: "sorted_wrt (<) (map bs_cumulative sps)"
    and g: "\<forall>x\<in>set sps. off + (bs_end sp - nat (bs_start sp)) \<le> bs_cumulative x" by simp_all
  have "\<forall>x\<in>set sps. off < bs_cumulative x"
  proof
    fix x assume "x \<in> set sps"
    with g have "off + (bs_end sp - nat (bs_start sp)) \<le> bs_cumulative x" by simp
    with p show "off < bs_cumulative x" by arith
  qed
  then show ?case using c s by (auto intro: less_imp_le)
qed

lemma span_end_from_run:
  "(\<forall>i. span_end \<le> i \<and> i < span_end_from cs span_end \<longrightarrow> codepoint (cs ! i) = codepoint (cs ! (i - 1)) + 1)
   \<and> (span_end_from cs span_end < length cs \<longrightarrow>
        codepoint (cs ! span_end_from cs span_end) \<noteq> codepoint (cs ! (span_end_from cs span_end - 1)) + 1)"
proof (induction cs span_end rule: span_end_from.induct)
  case (1 cs span_end)
  show ?case
  proof (cases "span_end < length cs \<and> codepoint (cs ! span_end) = codepoint (cs ! (span_end - 1)) + 1")
    case True
    then have e: "span_end_from cs span_end = span_end_from cs (Suc span_end)"
      by (subst span_end_from.simps) simp
    from 1 [OF True] have ih1: "\<And>i. Suc span_end \<le> i \<Longrightarrow> i < span_end_from cs (Suc span_end) \<Longrightarrow>
          codepoint (cs ! i) = codepoint (cs ! (i - 1)) + 1"
      and ih2: "span_end_from cs (Suc span_end) < length cs \<longrightarrow>
        codepoint (cs ! span_end_from cs (Suc span_end)) \<noteq> codepoint (cs ! (span_end_from cs (Suc span_end) - 1)) + 1"
      by simp_all
    have "codepoint (cs ! i) = codepoint (cs ! (i - 1)) + 1"
      if "span_end \<le> i" "i < span_end_from cs (Suc span_end)" for i
    proof (cases "i = span_end")
      case True
      then show ?thesis using \<open>span_end < length cs \<and> codepoint (cs ! span_end) = codepoint (cs ! (span_end - 1)) + 1\<close> by simp
    next
      case False
      with that(1) have "Suc span_end \<le> i" by simp
      then show ?thesis using that(2) by (rule ih1)
    qed
    then show ?thesis unfolding e using ih2 by blast
  next
    case False
    have e: "span_end_from cs span_end = span_end"
      by (subst span_end_from.simps) (simp only: False if_False)
    show ?thesis unfolding e using False by auto
  qed
qed

lemma run_consecutive:
  assumes "j < span_end_from cs (Suc b) - b"
  shows "codepoint (cs ! (b + j)) = codepoint (cs ! b) + int j"
  using assms
proof (induction j)
  case 0
  then show ?case by simp
next
  case (Suc j)
  then have ih: "codepoint (cs ! (b + j)) = codepoint (cs ! b) + int j" by simp
  have "Suc b \<le> b + Suc j" "b + Suc j < span_end_from cs (Suc b)" using Suc.prems by simp_all
  then have "codepoint (cs ! (b + Suc j)) = codepoint (cs ! (b + Suc j - 1)) + 1"
    using span_end_from_run [of "Suc b" cs] by blast
  then show ?case using ih by simp
qed

lemma write_spans_end: "write_spans cs (length cs) c = []"
  by (subst write_spans.simps) simp

lemma write_spans_props:
  assumes srt: "sorted_wrt (<) (map codepoint cs)"
    and rng: "\<forall>ch\<in>set cs. 0 \<le> codepoint ch \<and> codepoint ch < 2 ^ 31 - 1"
    and len: "length cs < 2 ^ 32"
  shows "b \<le> length cs \<Longrightarrow>
       spans_partition b (length cs) (write_spans cs b b)
     \<and> (\<forall>sp\<in>set (write_spans cs b b). \<forall>j < bs_end sp - nat (bs_start sp).
           bs_cumulative sp + j < length cs
           \<and> codepoint (cs ! (bs_cumulative sp + j)) = bs_start sp + int j)
     \<and> runs_maximal (write_spans cs b b)
     \<and> (b < length cs \<longrightarrow> write_spans cs b b \<noteq> [] \<and> bs_start (hd (write_spans cs b b)) = codepoint (cs ! b))"
proof (induction "length cs - b" arbitrary: b rule: less_induct)
  case less
  show ?case
  proof (cases "b = length cs")
    case True
    show ?thesis unfolding True write_spans_end by simp
  next
    case False
    with less.prems have b: "b < length cs" by simp
    define e where "e = span_end_from cs (Suc b)"
    define sz where "sz = e - b"
    define cp where "cp = codepoint (cs ! b)"
    have eb: "Suc b \<le> e" unfolding e_def by (rule span_end_from_ge)
    have en: "e \<le> length cs" unfolding e_def using b by (intro span_end_from_le) simp
    have sz1: "1 \<le> sz" and bsz: "b + sz = e" using eb by (simp_all add: sz_def)
    have run: "codepoint (cs ! (b + j)) = cp + int j" if "j < sz" for j
      using that unfolding sz_def e_def cp_def by (rule run_consecutive)
    have cp0: "0 \<le> cp" using rng b by (simp add: cp_def)
    have "codepoint (cs ! (b + (sz - 1))) < 2 ^ 31 - 1" using rng b bsz en sz1 by simp
    then have top: "cp + int (sz - 1) < 2 ^ 31 - 1" using run [of "sz - 1"] sz1 by simp
    have ucp: "unsigned_of_int cp = nat cp" using cp0 top by (simp add: unsigned_of_int_def)
    have endv: "(unsigned_of_int cp + sz) mod 2 ^ 32 = nat cp + sz"
    proof -
      have "int (nat cp + sz) < 2 ^ 32" using top cp0 sz1 by simp
      then have "nat cp + sz < 2 ^ 32" by (metis of_nat_less_numeral_power_cancel_iff)
      then show ?thesis by (simp add: ucp)
    qed
    have cum: "(b + sz) mod 2 ^ 32 = e" using bsz en len by simp
    define sp where "sp = \<lparr>bs_start = cp, bs_end = nat cp + sz, bs_cumulative = b\<rparr>"
    have ws: "write_spans cs b b = sp # write_spans cs e e"
      using endv cum by (subst write_spans.simps)
         (simp add: b Let_def e_def [symmetric] sz_def [symmetric] cp_def [symmetric] sp_def)
    have "length cs - e < length cs - b" using eb en b by simp
    from less.hyps [OF this en]
    have ih1: "spans_partition e (length cs) (write_spans cs e e)"
      and ih2: "\<forall>sp\<in>set (write_spans cs e e). \<forall>j < bs_end sp - nat (bs_start sp).
           bs_cumulative sp + j < length cs
           \<and> codepoint (cs ! (bs_cumulative sp + j)) = bs_start sp + int j"
      and ih3: "runs_maximal (write_spans cs e e)"
      and ih4: "e < length cs \<longrightarrow> write_spans cs e e \<noteq> [] \<and> bs_start (hd (write_spans cs e e)) = codepoint (cs ! e)"
      by blast+
    have szv: "bs_end sp - nat (bs_start sp) = sz" by (simp add: sp_def)
    have g1: "spans_partition b (length cs) (sp # write_spans cs e e)"
      unfolding spans_partition.simps szv bsz using ih1 sz1 by (simp add: sp_def)
    have g2a: "\<forall>j < bs_end sp - nat (bs_start sp).
           bs_cumulative sp + j < length cs
           \<and> codepoint (cs ! (bs_cumulative sp + j)) = bs_start sp + int j"
      unfolding szv
    proof (intro allI impI)
      fix j assume j: "j < sz"
      then have "b + j < length cs" using bsz en by simp
      then show "bs_cumulative sp + j < length cs
           \<and> codepoint (cs ! (bs_cumulative sp + j)) = bs_start sp + int j"
        using run [OF j] by (simp add: sp_def)
    qed
    have g3: "runs_maximal (sp # write_spans cs e e)"
    proof -
      have "int (bs_end sp) < bs_start (hd (write_spans cs e e))" if ne: "write_spans cs e e \<noteq> []"
      proof -
        have elt: "e < length cs" using ne en write_spans_end [of cs e] by (cases "e = length cs") auto
        with ih4 have hd: "bs_start (hd (write_spans cs e e)) = codepoint (cs ! e)" by simp
        have prev: "codepoint (cs ! (e - 1)) = cp + int (sz - 1)"
          using run [of "sz - 1"] sz1 bsz by (simp add: add.commute)
        have lt: "codepoint (cs ! (e - 1)) < codepoint (cs ! e)"
          using sorted_wrt_nth_less [OF srt, of "e - 1" e] elt eb by simp
        have "codepoint (cs ! e) \<noteq> codepoint (cs ! (e - 1)) + 1"
          using span_end_from_run [of "Suc b" cs] elt unfolding e_def [symmetric] by blast
        with lt have "codepoint (cs ! (e - 1)) + 1 < codepoint (cs ! e)" by simp
        moreover have "int (bs_end sp) = codepoint (cs ! (e - 1)) + 1"
          using prev cp0 sz1 by (simp add: sp_def)
        ultimately show ?thesis using hd by simp
      qed
      then show ?thesis using ih3 by (simp add: runs_maximal_Cons)
    qed
    have g4: "sp # write_spans cs e e \<noteq> [] \<and> bs_start (hd (sp # write_spans cs e e)) = codepoint (cs ! b)"
      by (simp add: sp_def cp_def)
    have g2: "\<forall>x\<in>set (sp # write_spans cs e e). \<forall>j < bs_end x - nat (bs_start x).
           bs_cumulative x + j < length cs
           \<and> codepoint (cs ! (bs_cumulative x + j)) = bs_start x + int j"
    proof
      fix x assume "x \<in> set (sp # write_spans cs e e)"
      then consider "x = sp" | "x \<in> set (write_spans cs e e)" by auto
      then show "\<forall>j < bs_end x - nat (bs_start x).
           bs_cumulative x + j < length cs
           \<and> codepoint (cs ! (bs_cumulative x + j)) = bs_start x + int j"
        using g2a ih2 by cases blast+
    qed
    show ?thesis unfolding ws using g1 g2 g3 g4 by blast
  qed
qed

lemma distinct_map_insort_key:
  "distinct (map f (insort_key f x xs)) = (f x \<notin> f ` set xs \<and> distinct (map f xs))"
  by (induction xs) (auto simp: set_insort_key)

lemma distinct_map_sort_key: "distinct (map f (sort_key f xs)) = distinct (map f xs)"
  by (induction xs) (simp_all add: distinct_map_insort_key)

lemma length_bounded_by_codepoints:
  assumes "distinct (map codepoint cs)" "\<forall>ch\<in>set cs. 0 \<le> codepoint ch \<and> codepoint ch < 2 ^ 31 - 1"
  shows "length cs < 2 ^ 32"
proof -
  have "length cs = card (codepoint ` set cs)"
    using assms(1) distinct_card [of "map codepoint cs"] by simp
  also have "\<dots> \<le> card {0..<(2::int) ^ 31 - 1}"
    using assms(2) by (intro card_mono) auto
  also have "\<dots> < 2 ^ 32" by simp
  finally show ?thesis .
qed

lemma write_description_returns:
  assumes "charinfos \<noteq> []"
  shows "write_description charinfos cfg =
     Returns \<lparr>font_codepoint_spans =
                 (if use_spans cfg then Some (write_spans (sort_key codepoint charinfos) 0 0) else None),
               font_codepoint_infos = fst (write_glyphs (use_spans cfg) 0 (sort_key codepoint charinfos)),
               bitmap_chars_count = (snd (write_glyphs (use_spans cfg) 0 (sort_key codepoint charinfos)) + 1) mod 2 ^ 64\<rparr>"
proof -
  have "sort_key codepoint charinfos \<noteq> []"
  proof
    assume "sort_key codepoint charinfos = []"
    then have "length (sort_key codepoint charinfos) = 0" by (simp only: list.size)
    then show False using assms by simp
  qed
  then show ?thesis by (simp add: write_description_def Let_def)
qed

lemma codepoint_demo_glyph: "codepoint (demo_glyph cp) = cp"
  by (simp add: demo_glyph_def)

lemma demo_sorted:
  "sort_key codepoint [demo_glyph 67, demo_glyph 65] = [demo_glyph 65, demo_glyph 67]"
  "sort_key codepoint [demo_glyph 65, demo_glyph 65] = [demo_glyph 65, demo_glyph 65]"
  by (simp_all add: codepoint_demo_glyph)

lemma demo_spans:
  "write_spans [demo_glyph 65, demo_glyph 67] 0 0
     = [\<lparr>bs_start = 65, bs_end = 66, bs_cumulative = 0\<rparr>, \<lparr>bs_start = 67, bs_end = 68, bs_cumulative = 1\<rparr>]"
  "write_spans [demo_glyph 65, demo_glyph 65] 0 0
     = [\<lparr>bs_start = 65, bs_end = 66, bs_cumulative = 0\<rparr>, \<lparr>bs_start = 65, bs_end = 66, bs_cumulative = 1\<rparr>]"
  by (simp_all add: write_spans.simps span_end_from.simps codepoint_demo_glyph unsigned_of_int_def Let_def)

lemma demo_descriptions:
  "write_description [demo_glyph 67, demo_glyph 65] (demo_settings 256 32 False False)
     = Returns \<lparr>font_codepoint_spans = None,
                font_codepoint_infos = replicate 65 Placeholder
                   @ [Glyph_entry (demo_glyph 65), Placeholder, Glyph_entry (demo_glyph 67)],
                bitmap_chars_count = 69\<rparr>"
  "write_description [demo_glyph 67, demo_glyph 65] (demo_settings 256 32 False True)
     = Returns \<lparr>font_codepoint_spans = Some [\<lparr>bs_start = 65, bs_end = 66, bs_cumulative = 0\<rparr>,
                   \<lparr>bs_start = 67, bs_end = 68, bs_cumulative = 1\<rparr>],
                font_codepoint_infos = [Glyph_entry (demo_glyph 65), Glyph_entry (demo_glyph 67)],
                bitmap_chars_count = 69\<rparr>"
  by (simp_all add: write_description_def Let_def demo_sorted demo_spans fill_gap_replicate
      codepoint_demo_glyph size_t_of_int_def demo_settings_def)

text \<open>
  Claim C3, as amended. Let the record set be non-empty, with pairwise distinct
  codepoints, all in the range from 0 to \<open>2 ^ 31 - 2\<close>. Without spans the glyph table has
  one line per codepoint from 0 to the largest retained one; the line at index \<open>k\<close> is the
  line of the record with codepoint \<open>k\<close>, and the placeholder if there is none. With spans
  the glyph table holds the records in ascending codepoint order and nothing else; the
  spans partition it (the cumulative offsets start at 0, strictly increase, and each span
  stops where the next starts, the last at the end of the table); the lines of a span
  are the records of the consecutive codepoints from its start to its exclusive end; and
  the runs are maximal.
\<close>

theorem description_round_trip:
  assumes ne: "charinfos \<noteq> []"
    and dist: "distinct (map codepoint charinfos)"
    and rng: "\<forall>ch\<in>set charinfos. 0 \<le> codepoint ch \<and> codepoint ch < 2 ^ 31 - 1"
  shows "(\<not> use_spans cfg \<longrightarrow> (\<exists>d. write_description charinfos cfg = Returns d
            \<and> font_codepoint_spans d = None
            \<and> length (font_codepoint_infos d) = nat (Max (codepoint ` set charinfos)) + 1
            \<and> (\<forall>ch\<in>set charinfos. font_codepoint_infos d ! nat (codepoint ch) = Glyph_entry ch)
            \<and> (\<forall>k < length (font_codepoint_infos d). int k \<notin> codepoint ` set charinfos
                  \<longrightarrow> font_codepoint_infos d ! k = Placeholder)))
       \<and> (use_spans cfg \<longrightarrow> (\<exists>d spans. write_description charinfos cfg = Returns d
            \<and> font_codepoint_spans d = Some spans
            \<and> font_codepoint_infos d = map Glyph_entry (sort_key codepoint charinfos)
            \<and> spans_partition 0 (length (font_codepoint_infos d)) spans
            \<and> sorted_wrt (<) (map bs_cumulative spans)
            \<and> runs_maximal spans
            \<and> (\<forall>sp\<in>set spans. \<forall>j < bs_end sp - nat (bs_start sp).
                  \<exists>ch\<in>set charinfos. font_codepoint_infos d ! (bs_cumulative sp + j) = Glyph_entry ch
                      \<and> codepoint ch = bs_start sp + int j)))"
proof (intro conjI impI)
  let ?cs = "sort_key codepoint charinfos"
  have set_cs: "set ?cs = set charinfos" by simp
  have ne': "?cs \<noteq> []"
  proof
    assume "?cs = []"
    then have "length ?cs = 0" by (simp only: list.size)
    then show False using ne by simp
  qed
  have sorted_cs: "sorted (map codepoint ?cs)" by (rule sorted_sort_key)
  have "distinct (map codepoint ?cs)" using dist by (simp only: distinct_map_sort_key)
  with sorted_cs have srt: "sorted_wrt (<) (map codepoint ?cs)" by (simp only: strict_sorted_iff)
  have rng': "\<forall>ch\<in>set ?cs. 0 \<le> codepoint ch \<and> codepoint ch < 2 ^ 31 - 1"
    using rng by (simp only: set_cs)
  have len: "length ?cs < 2 ^ 32"
    using length_bounded_by_codepoints [OF dist rng] by simp
  {
    assume dense: "\<not> use_spans cfg"
    let ?es = "fst (write_glyphs False 0 ?cs)"
    have r62: "\<forall>ch\<in>set ?cs. int 0 \<le> codepoint ch \<and> codepoint ch < 2 ^ 62"
    proof
      fix ch assume "ch \<in> set ?cs"
      with rng' have "0 \<le> codepoint ch" "codepoint ch < 2 ^ 31 - 1" by blast+
      then show "int 0 \<le> codepoint ch \<and> codepoint ch < 2 ^ 62" by simp
    qed
    note d = write_glyphs_dense [OF srt ne' r62]
    have mx: "codepoint (last ?cs) = Max (codepoint ` set charinfos)"
      using last_sorted_Max [OF sorted_cs ne'] by (simp only: set_cs)
    have l: "length ?es = nat (Max (codepoint ` set charinfos)) + 1" using d mx by simp
    have g: "?es ! nat (codepoint ch) = Glyph_entry ch" if "ch \<in> set charinfos" for ch
    proof -
      from that have "ch \<in> set ?cs" by (simp only: set_cs)
      with d have "?es ! (nat (codepoint ch) - 0) = Glyph_entry ch" by blast
      then show ?thesis by simp
    qed
    have p: "?es ! k = Placeholder" if "k < length ?es" "int k \<notin> codepoint ` set charinfos" for k
    proof -
      from that(1) l mx have "k \<le> nat (codepoint (last ?cs))" by simp
      moreover have "int k \<notin> codepoint ` set ?cs" unfolding set_cs by (rule that(2))
      ultimately have "?es ! (k - 0) = Placeholder" using d by blast
      then show ?thesis by simp
    qed
    have "write_description charinfos cfg = Returns \<lparr>font_codepoint_spans = None,
        font_codepoint_infos = ?es, bitmap_chars_count = (snd (write_glyphs False 0 ?cs) + 1) mod 2 ^ 64\<rparr>"
      using dense by (simp add: write_description_returns [OF ne])
    then show "\<exists>d. write_description charinfos cfg = Returns d
            \<and> font_codepoint_spans d = None
            \<and> length (font_codepoint_infos d) = nat (Max (codepoint ` set charinfos)) + 1
            \<and> (\<forall>ch\<in>set charinfos. font_codepoint_infos d ! nat (codepoint ch) = Glyph_entry ch)
            \<and> (\<forall>k < length (font_codepoint_infos d). int k \<notin> codepoint ` set charinfos
                  \<longrightarrow> font_codepoint_infos d ! k = Placeholder)"
      using l g p by simp
  }
  {
    assume sp: "use_spans cfg"
    let ?es = "map Glyph_entry ?cs"
    let ?sps = "write_spans ?cs 0 0"
    from write_spans_props [OF srt rng' len, of 0]
    have part: "spans_partition 0 (length ?cs) ?sps"
      and blocks: "\<forall>sp\<in>set ?sps. \<forall>j < bs_end sp - nat (bs_start sp).
           bs_cumulative sp + j < length ?cs
           \<and> codepoint (?cs ! (bs_cumulative sp + j)) = bs_start sp + int j"
      and runs: "runs_maximal ?sps" by blast+
    have inc: "sorted_wrt (<) (map bs_cumulative ?sps)"
      using spans_partition_increasing [OF part] by blast
    have blk: "\<exists>ch\<in>set charinfos. ?es ! (bs_cumulative x + j) = Glyph_entry ch \<and> codepoint ch = bs_start x + int j"
      if "x \<in> set ?sps" "j < bs_end x - nat (bs_start x)" for x j
    proof -
      from blocks that have i: "bs_cumulative x + j < length ?cs"
        and c: "codepoint (?cs ! (bs_cumulative x + j)) = bs_start x + int j" by blast+
      from i have "?cs ! (bs_cumulative x + j) \<in> set ?cs" by (rule nth_mem)
      then have "?cs ! (bs_cumulative x + j) \<in> set charinfos" by (simp only: set_cs)
      moreover have "?es ! (bs_cumulative x + j) = Glyph_entry (?cs ! (bs_cumulative x + j))"
        using i by (rule nth_map)
      ultimately show ?thesis using c by blast
    qed
    have "write_description charinfos cfg = Returns \<lparr>font_codepoint_spans = Some ?sps,
        font_codepoint_infos = ?es, bitmap_chars_count = (snd (write_glyphs True 0 ?cs) + 1) mod 2 ^ 64\<rparr>"
      using sp by (simp add: write_description_returns [OF ne] write_glyphs_spans)
    then show "\<exists>d spans. write_description charinfos cfg = Returns d
            \<and> font_codepoint_spans d = Some spans
            \<and> font_codepoint_infos d = map Glyph_entry (sort_key codepoint charinfos)
            \<and> spans_partition 0 (length (font_codepoint_infos d)) spans
            \<and> sorted_wrt (<) (map bs_cumulative spans)
            \<and> runs_maximal spans
            \<and> (\<forall>sp\<in>set spans. \<forall>j < bs_end sp - nat (bs_start sp).
                  \<exists>ch\<in>set charinfos. font_codepoint_infos d ! (bs_cumulative sp + j) = Glyph_entry ch
                      \<and> codepoint ch = bs_start sp + int j)"
      using part inc runs blk by simp
  }
qed

text \<open>
  The theorem at the records of codepoints 67 and 65, given in this order: without spans
  the table is 65 placeholders, the record of 65, a placeholder and the record of 67; with
  spans the spans are \<open>{65, 66, 0}\<close> and \<open>{67, 68, 1}\<close>.
\<close>

theorem description_round_trip_witness:
  "[demo_glyph 67, demo_glyph 65] \<noteq> []
   \<and> distinct (map codepoint [demo_glyph 67, demo_glyph 65])
   \<and> list_all (\<lambda>ch. 0 \<le> codepoint ch \<and> codepoint ch < 2 ^ 31 - 1) [demo_glyph 67, demo_glyph 65]
   \<and> \<not> use_spans (demo_settings 256 32 False False)
   \<and> (\<exists>d. write_description [demo_glyph 67, demo_glyph 65] (demo_settings 256 32 False False) = Returns d
          \<and> font_codepoint_infos d = replicate 65 Placeholder
                   @ [Glyph_entry (demo_glyph 65), Placeholder, Glyph_entry (demo_glyph 67)]
          \<and> length (font_codepoint_infos d) = nat (Max (codepoint ` set [demo_glyph 67, demo_glyph 65])) + 1
          \<and> font_codepoint_infos d ! nat (codepoint (demo_glyph 67)) = Glyph_entry (demo_glyph 67))
   \<and> use_spans (demo_settings 256 32 False True)
   \<and> (\<exists>d spans. write_description [demo_glyph 67, demo_glyph 65] (demo_settings 256 32 False True) = Returns d
          \<and> font_codepoint_spans d = Some spans
          \<and> spans = [\<lparr>bs_start = 65, bs_end = 66, bs_cumulative = 0\<rparr>, \<lparr>bs_start = 67, bs_end = 68, bs_cumulative = 1\<rparr>]
          \<and> spans_partition 0 (length (font_codepoint_infos d)) spans
          \<and> runs_maximal spans)"
proof -
  let ?cs = "[demo_glyph 67, demo_glyph 65]"
  have a: "?cs \<noteq> []" by simp
  have b: "distinct (map codepoint ?cs)" by (simp add: codepoint_demo_glyph)
  have c: "\<forall>ch\<in>set ?cs. 0 \<le> codepoint ch \<and> codepoint ch < 2 ^ 31 - 1" by (simp add: codepoint_demo_glyph)
  have c': "list_all (\<lambda>ch. 0 \<le> codepoint ch \<and> codepoint ch < 2 ^ 31 - 1) ?cs" by (simp add: codepoint_demo_glyph)
  have d: "\<not> use_spans (demo_settings 256 32 False False)" and s: "use_spans (demo_settings 256 32 False True)"
    by (simp_all add: demo_settings_def)
  from description_round_trip [OF a b c, of "demo_settings 256 32 False False"] d
  obtain dd where dd: "write_description ?cs (demo_settings 256 32 False False) = Returns dd"
    and l: "length (font_codepoint_infos dd) = nat (Max (codepoint ` set ?cs)) + 1"
    and g: "\<forall>ch\<in>set ?cs. font_codepoint_infos dd ! nat (codepoint ch) = Glyph_entry ch"
    by blast
  from dd have de: "font_codepoint_infos dd = replicate 65 Placeholder
                   @ [Glyph_entry (demo_glyph 65), Placeholder, Glyph_entry (demo_glyph 67)]"
    by (auto simp: demo_descriptions(1))
  from g have g67: "font_codepoint_infos dd ! nat (codepoint (demo_glyph 67)) = Glyph_entry (demo_glyph 67)"
    by simp
  from description_round_trip [OF a b c, of "demo_settings 256 32 False True"] s
  obtain ds spans where ds: "write_description ?cs (demo_settings 256 32 False True) = Returns ds"
    and sp: "font_codepoint_spans ds = Some spans"
    and part: "spans_partition 0 (length (font_codepoint_infos ds)) spans"
    and runs: "runs_maximal spans"
    by blast
  from ds sp have spv: "spans = [\<lparr>bs_start = 65, bs_end = 66, bs_cumulative = 0\<rparr>, \<lparr>bs_start = 67, bs_end = 68, bs_cumulative = 1\<rparr>]"
    by (auto simp: demo_descriptions(2))
  have e1: "\<exists>d. write_description ?cs (demo_settings 256 32 False False) = Returns d
          \<and> font_codepoint_infos d = replicate 65 Placeholder
                   @ [Glyph_entry (demo_glyph 65), Placeholder, Glyph_entry (demo_glyph 67)]
          \<and> length (font_codepoint_infos d) = nat (Max (codepoint ` set ?cs)) + 1
          \<and> font_codepoint_infos d ! nat (codepoint (demo_glyph 67)) = Glyph_entry (demo_glyph 67)"
    using dd de l g67 by blast
  have e2: "\<exists>d spans. write_description ?cs (demo_settings 256 32 False True) = Returns d
          \<and> font_codepoint_spans d = Some spans
          \<and> spans = [\<lparr>bs_start = 65, bs_end = 66, bs_cumulative = 0\<rparr>, \<lparr>bs_start = 67, bs_end = 68, bs_cumulative = 1\<rparr>]
          \<and> spans_partition 0 (length (font_codepoint_infos d)) spans
          \<and> runs_maximal spans"
    using ds sp spv part runs by blast
  show ?thesis by (intro conjI) (rule a b c' d e1 s e2)+
qed

text \<open>
  Claim C3 as stated fails when two codepoint ranges overlap: \<^verbatim>\<open>read_shapes\<close> then retains a
  codepoint twice. For codepoint 65 retained twice, the table without spans has 67 lines
  and the line at index 66 is a record of codepoint 65; with spans the two spans both
  start at 65.
\<close>

theorem duplicate_codepoints_shift_the_table:
  "write_description [demo_glyph 65, demo_glyph 65] (demo_settings 256 32 False False)
     = Returns \<lparr>font_codepoint_spans = None,
                font_codepoint_infos = replicate 65 Placeholder
                   @ [Glyph_entry (demo_glyph 65), Glyph_entry (demo_glyph 65)],
                bitmap_chars_count = 67\<rparr>
   \<and> (replicate 65 Placeholder @ [Glyph_entry (demo_glyph 65), Glyph_entry (demo_glyph 65)]) ! 66
       = Glyph_entry (demo_glyph 65)
   \<and> codepoint (demo_glyph 65) = 65
   \<and> write_description [demo_glyph 65, demo_glyph 65] (demo_settings 256 32 False True)
     = Returns \<lparr>font_codepoint_spans = Some [\<lparr>bs_start = 65, bs_end = 66, bs_cumulative = 0\<rparr>,
                   \<lparr>bs_start = 65, bs_end = 66, bs_cumulative = 1\<rparr>],
                font_codepoint_infos = [Glyph_entry (demo_glyph 65), Glyph_entry (demo_glyph 65)],
                bitmap_chars_count = 67\<rparr>"
  by (simp add: write_description_def Let_def demo_sorted demo_spans fill_gap_replicate
      codepoint_demo_glyph size_t_of_int_def demo_settings_def nth_append)

end
